theory Spec2Isabelle
  imports Complex_Main "HOL-Library.Char_ord" "HOL-Library.List_Lexorder"
begin

section \<open>JavaScript values\<close>

text \<open>
  The values that reach \<open>core.js\<close>: the primitives and the time objects that the date
  library builds. A number is a double; only its comparisons are used, so a finite one
  is carried by the rational it denotes (both zeros are \<open>Fin 0\<close>), next to \<open>NaN\<close> and the
  two infinities. A string is the list of its code units, here the characters of
  \<open>char\<close>, ordered by their codes. An object is known by its identity, by what
  \<open>valueOf()\<close> returns and by what \<open>toString()\<close> returns.
\<close>

datatype jsnum = NaN | PInf | NInf | Fin rat

datatype jsobj = JSObj (oref: nat) (ovalue: jsnum) (ostring: string)

datatype jsval = Undefined | Null | Bool bool | Num jsnum | Str string | Obj jsobj

datatype error = TypeError | Unsupported

text \<open>
  What the host supplies and \<open>core.js\<close> only calls: the conversion of a string to a number
  (\<open>Number(s)\<close>, which rounds to a double), the digits of a number that is not a small
  integer (the shortest string that reads back as the same double), and the two
  constructors of the date library, \<open>moment(s, format)\<close> and \<open>moment(n)\<close>, which return
  objects.
\<close>

record host =
  StringToNumber :: "string \<Rightarrow> jsnum"
  FractionToString :: "rat \<Rightarrow> string"
  moment_parse :: "string \<Rightarrow> string \<Rightarrow> jsobj"
  moment_number :: "jsnum \<Rightarrow> jsobj"

fun typeof :: "jsval \<Rightarrow> string" where
  "typeof Undefined = ''undefined''"
| "typeof Null = ''object''"
| "typeof (Bool b) = ''boolean''"
| "typeof (Num n) = ''number''"
| "typeof (Str s) = ''string''"
| "typeof (Obj o') = ''object''"

fun ToBoolean :: "jsval \<Rightarrow> bool" where
  "ToBoolean Undefined = False"
| "ToBoolean Null = False"
| "ToBoolean (Bool b) = b"
| "ToBoolean (Num n) = (n \<noteq> NaN \<and> n \<noteq> Fin 0)"
| "ToBoolean (Str s) = (s \<noteq> [])"
| "ToBoolean (Obj o') = True"

fun ToNumber :: "host \<Rightarrow> jsval \<Rightarrow> jsnum" where
  "ToNumber h Undefined = NaN"
| "ToNumber h Null = Fin 0"
| "ToNumber h (Bool b) = (if b then Fin 1 else Fin 0)"
| "ToNumber h (Num n) = n"
| "ToNumber h (Str s) = StringToNumber h s"
| "ToNumber h (Obj o') = ovalue o'"

text \<open>Decimal digits of a natural number, most significant first.\<close>

fun digits :: "nat \<Rightarrow> string" where
  "digits n = (if n < 10 then [''0123456789'' ! n] else digits (n div 10) @ [''0123456789'' ! (n mod 10)])"

declare digits.simps [simp del]

text \<open>
  \<open>Number::toString\<close>: an integer below \<open>10^21\<close> in magnitude prints as its decimal
  digits; the other finite values print the digits the host computes.
\<close>

fun NumberToString :: "host \<Rightarrow> jsnum \<Rightarrow> string" where
  "NumberToString h NaN = ''NaN''"
| "NumberToString h PInf = ''Infinity''"
| "NumberToString h NInf = ''-Infinity''"
| "NumberToString h (Fin q) =
     (if of_int \<lfloor>q\<rfloor> = q \<and> \<bar>q\<bar> < 10 ^ 21
      then (if q < 0 then ''-'' @ digits (nat \<lfloor>- q\<rfloor>) else digits (nat \<lfloor>q\<rfloor>))
      else FractionToString h q)"

fun ToString :: "host \<Rightarrow> jsval \<Rightarrow> string" where
  "ToString h Undefined = ''undefined''"
| "ToString h Null = ''null''"
| "ToString h (Bool b) = (if b then ''true'' else ''false'')"
| "ToString h (Num n) = NumberToString h n"
| "ToString h (Str s) = s"
| "ToString h (Obj o') = ostring o'"

text \<open>
  The relational operators. On two numbers \<open>a < b\<close> is false as soon as one of them is
  \<open>NaN\<close>; \<open>a === b\<close> on numbers is false for \<open>NaN\<close> as well.
\<close>

fun num_lt :: "jsnum \<Rightarrow> jsnum \<Rightarrow> bool" where
  "num_lt NaN y = False"
| "num_lt x NaN = False"
| "num_lt PInf y = False"
| "num_lt x NInf = False"
| "num_lt NInf y = True"
| "num_lt x PInf = True"
| "num_lt (Fin a) (Fin b) = (a < b)"

fun num_eq :: "jsnum \<Rightarrow> jsnum \<Rightarrow> bool" where
  "num_eq NaN y = False"
| "num_eq x NaN = False"
| "num_eq x y = (x = y)"

text \<open>
  \<open>ToPrimitive\<close> with hint number: an object answers with its \<open>valueOf()\<close>, which for a
  time object is a number.
\<close>

fun ToPrimitive :: "jsval \<Rightarrow> jsval" where
  "ToPrimitive (Obj o') = Num (ovalue o')"
| "ToPrimitive v = v"

text \<open>
  \<open>a < b\<close>: both operands are made primitive; two strings compare by code units, left
  to right; anything else compares as numbers. \<open>a > b\<close> is \<open>b < a\<close>.
\<close>

definition js_lt :: "host \<Rightarrow> jsval \<Rightarrow> jsval \<Rightarrow> bool" where
  "js_lt h a b =
     (case (ToPrimitive a, ToPrimitive b) of
        (Str s, Str t) \<Rightarrow> s < t
      | (pa, pb) \<Rightarrow> num_lt (ToNumber h pa) (ToNumber h pb))"

definition js_gt :: "host \<Rightarrow> jsval \<Rightarrow> jsval \<Rightarrow> bool" where
  "js_gt h a b = js_lt h b a"

text \<open>\<open>a === b\<close>: the same type and the same value; two objects only when they are one.\<close>

fun strict_eq :: "jsval \<Rightarrow> jsval \<Rightarrow> bool" where
  "strict_eq Undefined Undefined = True"
| "strict_eq Null Null = True"
| "strict_eq (Bool a) (Bool b) = (a = b)"
| "strict_eq (Num a) (Num b) = num_eq a b"
| "strict_eq (Str a) (Str b) = (a = b)"
| "strict_eq (Obj a) (Obj b) = (oref a = oref b)"
| "strict_eq a b = False"

section \<open>Deltas and their classification\<close>

text \<open>
  A delta is an object with two optional properties, \<open>old\<close> and \<open>changed\<close>, each an object
  of field values. A property that is absent reads \<open>undefined\<close>: \<open>None\<close> here. An object of
  fields is the list of its own properties, in insertion order, and \<open>_.keys\<close> lists the
  names.
\<close>

type_synonym fields = "(string \<times> jsval) list"

record delta =
  old :: "fields option"
  changed :: "fields option"

definition u_keys :: "fields \<Rightarrow> string list" where
  "u_keys obj = map fst obj"

definition isDelete :: "delta \<Rightarrow> bool" where
  "isDelete d =
     (if (case changed d of None \<Rightarrow> True | Some c \<Rightarrow> length (u_keys c) = 0)
      then True else False)"

definition isAdd :: "delta \<Rightarrow> bool" where
  "isAdd d =
     (if (case old d of None \<Rightarrow> True | Some c \<Rightarrow> length (u_keys c) = 0)
      then True else False)"

definition isUpdate :: "delta \<Rightarrow> bool" where
  "isUpdate d = (if \<not> isDelete d \<and> \<not> isAdd d then True else False)"

text \<open>Exactly one of three truth values holds.\<close>

definition exactly_one :: "bool \<Rightarrow> bool \<Rightarrow> bool \<Rightarrow> bool" where
  "exactly_one a b c = ((a \<and> \<not> b \<and> \<not> c) \<or> (b \<and> \<not> a \<and> \<not> c) \<or> (c \<and> \<not> a \<and> \<not> b))"

text \<open>A property of a delta that is absent or has no field.\<close>

definition absent_or_empty :: "fields option \<Rightarrow> bool" where
  "absent_or_empty f = (case f of None \<Rightarrow> True | Some c \<Rightarrow> c = [])"

section \<open>The type descriptors\<close>

subsection \<open>The regular expressions\<close>

text \<open>
  \<open>/^(true|false)$/\<close> accepts the two words and nothing else (there is no multiline
  flag, so \<open>$\<close> is the end of the input).
\<close>

definition boolean_regexp :: "string \<Rightarrow> bool" where
  "boolean_regexp s = (s = ''true'' \<or> s = ''false'')"

text \<open>
  \<open>/^[\-\.]?[0-9]+([\.][0-9]+)?$/\<close>: at most one leading \<open>-\<close> or \<open>.\<close>; then digits, at
  least one; then either the end, or a \<open>.\<close> and digits, at least one, up to the end.
  A digit can stand for neither the leading character nor the \<open>.\<close>, so the greedy
  reading is the only one.
\<close>

definition is_digit :: "char \<Rightarrow> bool" where
  "is_digit c = (CHR ''0'' \<le> c \<and> c \<le> CHR ''9'')"

fun skip_lead :: "string \<Rightarrow> string" where
  "skip_lead [] = []"
| "skip_lead (c # cs) = (if c = CHR ''-'' \<or> c = CHR ''.'' then cs else c # cs)"

definition number_regexp :: "string \<Rightarrow> bool" where
  "number_regexp s =
     (let r = skip_lead s; ds = takeWhile is_digit r; rest = dropWhile is_digit r
      in ds \<noteq> [] \<and>
         (case rest of [] \<Rightarrow> True
          | c # fs \<Rightarrow> c = CHR ''.'' \<and> fs \<noteq> [] \<and> list_all is_digit fs))"

text \<open>
  The regular expression of a date format is built by replacing, in this order, the
  first \<open>DD\<close>, the first \<open>MM\<close>, the first \<open>YYYY\<close> and the first \<open>YY\<close> of the format by a
  digit pattern (\<open>String.replace\<close> with a string pattern replaces the first occurrence
  only).
\<close>

definition time_format :: string where
  "time_format = ''DD/MM/YYYY''"

definition formatLookup :: "(string \<times> string) list" where
  "formatLookup =
     [(''DD'', CHR 0x5C # ''d{2}''), (''MM'', CHR 0x5C # ''d{2}''),
      (''YYYY'', CHR 0x5C # ''d{4}''), (''YY'', CHR 0x5C # ''d{2}'')]"

fun replace_first :: "string \<Rightarrow> string \<Rightarrow> string \<Rightarrow> string" where
  "replace_first pat rep [] = (if pat = [] then rep else [])"
| "replace_first pat rep (c # cs) =
     (if take (length pat) (c # cs) = pat then rep @ drop (length pat) (c # cs)
      else c # replace_first pat rep cs)"

definition regexp_source :: "string \<Rightarrow> string" where
  "regexp_source format = foldl (\<lambda>regexp pair. replace_first (fst pair) (snd pair) regexp) format formatLookup"

text \<open>
  The source string is then compiled by \<open>new RegExp(source, 'g')\<close>. The patterns read
  here are the sequences of digit tokens \<open>\d{2}\<close>, \<open>\d{4}\<close> and of characters that
  stand for themselves; a source with any other use of a character that is special in
  a regular expression is \<open>Unsupported\<close>. Each atom takes one character of the input.
\<close>

datatype atom = Digit | Lit char

definition special :: "char \<Rightarrow> bool" where
  "special c = (c \<in> set (CHR 0x5C # ''^$.|?*+()[]{}''))"

fun parse_pattern :: "string \<Rightarrow> atom list option" where
  "parse_pattern [] = Some []"
| "parse_pattern (c # cs) =
     (if c = CHR 0x5C then
        (if take 4 cs = ''d{2}'' then map_option (\<lambda>as. Digit # Digit # as) (parse_pattern (drop 4 cs))
         else if take 4 cs = ''d{4}''
           then map_option (\<lambda>as. Digit # Digit # Digit # Digit # as) (parse_pattern (drop 4 cs))
         else None)
      else if special c then None
      else map_option (\<lambda>as. Lit c # as) (parse_pattern cs))"

fun atom_ok :: "atom \<Rightarrow> char \<Rightarrow> bool" where
  "atom_ok Digit c = is_digit c"
| "atom_ok (Lit l) c = (c = l)"

fun match_here :: "atom list \<Rightarrow> string \<Rightarrow> bool" where
  "match_here [] s = True"
| "match_here (a # as) [] = False"
| "match_here (a # as) (c # cs) = (atom_ok a c \<and> match_here as cs)"

text \<open>The offset of the first position of the input at which the pattern matches.\<close>

fun find_match :: "atom list \<Rightarrow> string \<Rightarrow> nat option" where
  "find_match as [] = (if match_here as [] then Some 0 else None)"
| "find_match as (c # cs) =
     (if match_here as (c # cs) then Some 0 else map_option Suc (find_match as cs))"

text \<open>
  \<open>RegExp.prototype.test\<close> on a regular expression with the global flag: the search
  starts at \<open>lastIndex\<close>; a match leaves \<open>lastIndex\<close> at its end, a failure leaves it
  at \<open>0\<close>. The result is the answer and the new \<open>lastIndex\<close>.
\<close>

definition regexp_test_global :: "atom list \<Rightarrow> nat \<Rightarrow> string \<Rightarrow> bool \<times> nat" where
  "regexp_test_global as lastIndex s =
     (if lastIndex > length s then (False, 0)
      else (case find_match as (drop lastIndex s) of
              None \<Rightarrow> (False, 0)
            | Some k \<Rightarrow> (True, lastIndex + k + length as)))"

text \<open>
  \<open>_regexpTable\<close> memoises one \<open>RegExp\<close> object per format. Its pattern never changes
  and is the compiled source of the format; what the object carries from call to call
  is its \<open>lastIndex\<close>, so the table maps a format to the \<open>lastIndex\<close> of its object.
  The table is an ordinary dictionary: a format is a key of it only once it has been
  stored.
\<close>

type_synonym regexp_table = "string \<rightharpoonup> nat"

definition time_regexp :: "regexp_table \<Rightarrow> string \<Rightarrow> error + (atom list \<times> nat \<times> regexp_table)" where
  "time_regexp tbl format =
     (case parse_pattern (regexp_source format) of
        None \<Rightarrow> Inl Unsupported
      | Some as \<Rightarrow>
          (case tbl format of
             Some lastIndex \<Rightarrow> Inr (as, lastIndex, tbl)
           | None \<Rightarrow> Inr (as, 0, tbl(format \<mapsto> 0))))"

subsection \<open>string\<close>

text \<open>\<open>v.toString()\<close> throws on \<open>undefined\<close> and \<open>null\<close>, which have no methods.\<close>

fun method_toString :: "host \<Rightarrow> jsval \<Rightarrow> error + jsval" where
  "method_toString h Undefined = Inl TypeError"
| "method_toString h Null = Inl TypeError"
| "method_toString h v = Inr (Str (ToString h v))"

definition string_coerce :: "host \<Rightarrow> jsval \<Rightarrow> error + jsval" where
  "string_coerce h v = (if v = Null then Inr Null else method_toString h v)"

definition string_test :: "jsval \<Rightarrow> bool" where
  "string_test v = (typeof v = ''string'')"

definition string_compare :: "host \<Rightarrow> jsval \<Rightarrow> jsval \<Rightarrow> int" where
  "string_compare h s1 s2 = (if js_lt h s1 s2 then - 1 else if js_gt h s1 s2 then 1 else 0)"

definition string_numeric :: "jsval \<Rightarrow> jsval \<Rightarrow> jsval" where
  "string_numeric v index = index"

subsection \<open>boolean\<close>

definition boolean_coerce :: "jsval \<Rightarrow> jsval" where
  "boolean_coerce v = (if strict_eq v (Str ''false'') then Bool False else Bool (ToBoolean v))"

definition boolean_test :: "host \<Rightarrow> jsval \<Rightarrow> bool" where
  "boolean_test h v =
     (if typeof v = ''boolean'' \<or> boolean_regexp (ToString h v) then True else False)"

definition boolean_compare :: "host \<Rightarrow> jsval \<Rightarrow> jsval \<Rightarrow> int" where
  "boolean_compare h n1 n2 = (if strict_eq n1 n2 then 0 else (if js_lt h n1 n2 then - 1 else 1))"

definition boolean_numeric :: "jsval \<Rightarrow> jsval" where
  "boolean_numeric v = (if ToBoolean v then Num (Fin 1) else Num (Fin 0))"

subsection \<open>number\<close>

definition number_coerce :: "host \<Rightarrow> jsval \<Rightarrow> jsval" where
  "number_coerce h v =
     (if v = Null then Null
      else (let n = ToNumber h v in if n = NaN then Null else Num n))"

definition number_test :: "host \<Rightarrow> jsval \<Rightarrow> bool" where
  "number_test h v =
     (if typeof v = ''number'' \<or> number_regexp (ToString h v) then True else False)"

definition number_compare :: "host \<Rightarrow> jsval \<Rightarrow> jsval \<Rightarrow> int" where
  "number_compare h n1 n2 = (if strict_eq n1 n2 then 0 else (if js_lt h n1 n2 then - 1 else 1))"

definition number_numeric :: "jsval \<Rightarrow> jsval" where
  "number_numeric v = v"

subsection \<open>time\<close>

text \<open>\<open>x || this.format\<close>: a format that is missing or empty gives way to the default.\<close>

definition or_format :: "string option \<Rightarrow> string" where
  "or_format f = (case f of None \<Rightarrow> time_format | Some g \<Rightarrow> if g = [] then time_format else g)"

definition time_coerce :: "host \<Rightarrow> jsval \<Rightarrow> string option \<Rightarrow> jsval" where
  "time_coerce h v format =
     (case v of
        Str s \<Rightarrow> Obj (moment_parse h s (or_format format))
      | Num n \<Rightarrow> Obj (moment_number h n)
      | _ \<Rightarrow> v)"

definition time_test :: "regexp_table \<Rightarrow> jsval \<Rightarrow> string option \<Rightarrow> error + (bool \<times> regexp_table)" where
  "time_test tbl v format =
     (case v of
        Str s \<Rightarrow>
          (case time_regexp tbl (or_format format) of
             Inl e \<Rightarrow> Inl e
           | Inr (as, lastIndex, tbl') \<Rightarrow>
               (let (r, lastIndex') = regexp_test_global as lastIndex s
                in Inr (r, tbl'(or_format format \<mapsto> lastIndex'))))
      | _ \<Rightarrow> Inr (True, tbl))"

definition time_compare :: "host \<Rightarrow> jsval \<Rightarrow> jsval \<Rightarrow> int" where
  "time_compare h d1 d2 = (if js_lt h d1 d2 then - 1 else if js_gt h d1 d2 then 1 else 0)"

text \<open>
  \<open>value.valueOf()\<close>: a time object answers with its number, a primitive with itself;
  \<open>undefined\<close> and \<open>null\<close> throw. The line written to the console is left out.
\<close>

fun time_numeric :: "jsval \<Rightarrow> error + jsval" where
  "time_numeric Undefined = Inl TypeError"
| "time_numeric Null = Inl TypeError"
| "time_numeric (Obj o') = Inr (Num (ovalue o'))"
| "time_numeric v = Inr v"

subsection \<open>The table of types and the inference of a type\<close>

text \<open>The keys of \<open>DS.types\<close>, in the order the object literal lists them.\<close>

definition types_keys :: "string list" where
  "types_keys = [''string'', ''boolean'', ''number'', ''time'']"

text \<open>
  \<open>DS.types[type].test(value)\<close>: one argument, so the time type tests against its
  default format. A name that is no key of the table has no \<open>test\<close> to call.
\<close>

definition types_test :: "host \<Rightarrow> string \<Rightarrow> regexp_table \<Rightarrow> jsval \<Rightarrow> error + (bool \<times> regexp_table)" where
  "types_test h type tbl v =
     (if type = ''string'' then Inr (string_test v, tbl)
      else if type = ''boolean'' then Inr (boolean_test h v, tbl)
      else if type = ''number'' then Inr (number_test h v, tbl)
      else if type = ''time'' then time_test tbl v None
      else Inl TypeError)"

text \<open>\<open>_.indexOf\<close>, and \<open>splice(i, 1)\<close> as the pair of what it removes and what it leaves.\<close>

fun indexOf :: "string list \<Rightarrow> string \<Rightarrow> int" where
  "indexOf [] x = - 1"
| "indexOf (y # ys) x = (if y = x then 0 else (let i = indexOf ys x in if i < 0 then - 1 else i + 1))"

definition splice1 :: "string list \<Rightarrow> int \<Rightarrow> string list \<times> string list" where
  "splice1 xs i =
     (let n = int (length xs);
          start = nat (if i < 0 then max (n + i) 0 else min i n)
      in (take 1 (drop start xs), take start xs @ drop (Suc start) xs))"

text \<open>\<open>_.find\<close> with the tests run in order, each on the table the one before left.\<close>

fun find_type :: "host \<Rightarrow> string list \<Rightarrow> regexp_table \<Rightarrow> jsval \<Rightarrow> error + (string option \<times> regexp_table)" where
  "find_type h [] tbl v = Inr (None, tbl)"
| "find_type h (t # ts) tbl v =
     (case types_test h t tbl v of
        Inl e \<Rightarrow> Inl e
      | Inr (r, tbl') \<Rightarrow> if r then Inr (Some t, tbl') else find_type h ts tbl' v)"

definition candidates :: "string list" where
  "candidates =
     (let (removed, types) = splice1 types_keys (indexOf types_keys ''string'')
      in types @ [hd removed])"

definition typeOf :: "host \<Rightarrow> regexp_table \<Rightarrow> jsval \<Rightarrow> error + (string \<times> regexp_table)" where
  "typeOf h tbl v =
     (case find_type h candidates tbl v of
        Inl e \<Rightarrow> Inl e
      | Inr (chosenType, tbl') \<Rightarrow>
          Inr (case chosenType of None \<Rightarrow> ''string'' | Some t \<Rightarrow> t, tbl'))"

text \<open>\<open>DS.types[type].coerce(value)\<close>, with no options.\<close>

definition types_coerce :: "host \<Rightarrow> string \<Rightarrow> jsval \<Rightarrow> error + jsval" where
  "types_coerce h type v =
     (if type = ''string'' then string_coerce h v
      else if type = ''boolean'' then Inr (boolean_coerce v)
      else if type = ''number'' then Inr (number_coerce h v)
      else if type = ''time'' then Inr (time_coerce h v None)
      else Inl TypeError)"

subsection \<open>What an ordering has to satisfy\<close>

text \<open>
  The laws of a three-way comparison, at three values: the result is one of \<open>-1\<close>,
  \<open>0\<close>, \<open>1\<close>; swapping the arguments negates it; it is \<open>0\<close> exactly on values that are
  the same; and "less" is transitive.
\<close>

definition order_laws :: "('a \<Rightarrow> 'a \<Rightarrow> int) \<Rightarrow> ('a \<Rightarrow> 'a \<Rightarrow> bool) \<Rightarrow> 'a \<Rightarrow> 'a \<Rightarrow> 'a \<Rightarrow> bool" where
  "order_laws cmp same a b c =
     (cmp a b \<in> {- 1, 0, 1} \<and>
      cmp a b = - cmp b a \<and>
      (cmp a b = 0 \<longleftrightarrow> same a b) \<and>
      (cmp a b = - 1 \<and> cmp b c = - 1 \<longrightarrow> cmp a c = - 1))"

text \<open>Two time values are the same when they stand for the same instant.\<close>

definition same_instant :: "jsval \<Rightarrow> jsval \<Rightarrow> bool" where
  "same_instant d1 d2 = (ToPrimitive d1 = ToPrimitive d2)"

section \<open>The notification bus\<close>

subsection \<open>The objects of the bus\<close>

text \<open>
  \<open>_callbacks\<close> is a dictionary from event names to objects. The object of an event,
  its list, has a \<open>next\<close> and a \<open>tail\<close>; the nodes hang from it, each with a \<open>callback\<close>,
  a \<open>context\<close> and a \<open>next\<close>; the last node, the tail, is empty, and \<open>bind\<close> fills it
  and hangs a new empty one behind it. Lists and nodes are plain objects, created by
  \<open>{}\<close> and changed in place, so they live in a store: a list of cells, in which the
  address of an object is its index and \<open>{}\<close> appends a cell. A cell has the four
  properties the code reads and writes. A property that holds an object is \<open>None\<close>
  while it is absent; \<open>callback\<close> is a reference to a function, or \<open>None\<close> while it is
  absent, \<open>undefined\<close> or \<open>null\<close>; \<open>context\<close> is any value.

  \<open>_callbacks\<close> itself is \<open>None\<close> while it is \<open>undefined\<close> or \<open>null\<close>.
\<close>

record cell =
  callback :: "nat option"
  context' :: jsval
  next' :: "nat option"
  tail :: "nat option"

definition empty_object :: cell where
  "empty_object = \<lparr>callback = None, context' = Undefined, next' = None, tail = None\<rparr>"

record bus =
  callbacks :: "(string \<rightharpoonup> nat) option"
  heap :: "cell list"

text \<open>An object that has the bus mixed in and has bound nothing yet.\<close>

definition fresh :: bus where
  "fresh = \<lparr>callbacks = None, heap = []\<rparr>"

subsection \<open>Names that the dictionary inherits\<close>

text \<open>
  \<open>_callbacks\<close> is created by \<open>{}\<close>, so \<open>calls[ev]\<close> finds two kinds of names: those the
  bus has stored in it, and those that \<open>Object.prototype\<close> defines, which every object
  inherits. For a name of the second kind \<open>calls[ev]\<close> is an object the bus never
  stored: a function of the language, or, for \<open>__proto__\<close>, \<open>Object.prototype\<close> itself,
  on which \<open>bind\<close> would then hang the chain, so that every object created afterwards
  inherits a \<open>next\<close> and a \<open>tail\<close>. What the code does on such a name rests on objects
  that the whole program shares, and is not modelled: on these names \<open>bind\<close>, \<open>unbind\<close>
  and \<open>trigger\<close> answer \<open>Unsupported\<close>, which says nothing of what the code does.

  \<open>Object.prototype\<close> is taken as the language defines it, with the properties listed
  here. The operations below never write to it, so on every other name \<open>calls[ev]\<close>
  reads what the bus stored, and an object created by \<open>{}\<close> has the properties it was
  given and no other.
\<close>

definition object_prototype_names :: "string list" where
  "object_prototype_names =
     [''constructor'', ''hasOwnProperty'', ''isPrototypeOf'', ''propertyIsEnumerable'',
      ''toLocaleString'', ''toString'', ''valueOf'', ''__proto__'',
      ''__defineGetter__'', ''__defineSetter__'', ''__lookupGetter__'', ''__lookupSetter__'']"

definition inherited :: "string \<Rightarrow> bool" where
  "inherited ev = (ev \<in> set object_prototype_names)"

subsection \<open>bind\<close>

text \<open>\<open>calls[ev] || (calls[ev] = {})\<close>: the list of the event, the dictionary and the store.\<close>

definition list_for :: "(string \<rightharpoonup> nat) \<Rightarrow> cell list \<Rightarrow> string \<Rightarrow> nat \<times> (string \<rightharpoonup> nat) \<times> cell list" where
  "list_for calls h ev =
     (case calls ev of
        Some l \<Rightarrow> (l, calls, h)
      | None \<Rightarrow> (length h, calls(ev \<mapsto> length h), h @ [empty_object]))"

text \<open>\<open>list.tail || (list.tail = list.next = {})\<close>: the tail of the list and the store.\<close>

definition tail_for :: "cell list \<Rightarrow> nat \<Rightarrow> nat \<times> cell list" where
  "tail_for h list =
     (case tail (h ! list) of
        Some t \<Rightarrow> (t, h)
      | None \<Rightarrow>
          (length h,
           (h @ [empty_object])
             [list := (h ! list)\<lparr>next' := Some (length h), tail := Some (length h)\<rparr>]))"

text \<open>
  \<open>tail.callback = callback; tail.context = context; list.tail = tail.next = {}\<close>,
  one assignment after the other.
\<close>

definition fill_tail :: "cell list \<Rightarrow> nat \<Rightarrow> nat \<Rightarrow> nat option \<Rightarrow> jsval \<Rightarrow> cell list" where
  "fill_tail h list t cb ctx =
     (let h = h[t := (h ! t)\<lparr>callback := cb\<rparr>];
          h = h[t := (h ! t)\<lparr>context' := ctx\<rparr>];
          new = length h;
          h = h @ [empty_object];
          h = h[t := (h ! t)\<lparr>next' := Some new\<rparr>];
          h = h[list := (h ! list)\<lparr>tail := Some new\<rparr>]
      in h)"

text \<open>The body of \<open>bind\<close>, on an event name that the dictionary does not inherit.\<close>

definition bind_own :: "bus \<Rightarrow> string \<Rightarrow> nat option \<Rightarrow> jsval \<Rightarrow> bus" where
  "bind_own b ev cb ctx =
     (let calls = (case callbacks b of None \<Rightarrow> Map.empty | Some c \<Rightarrow> c);
          (list, calls, h) = list_for calls (heap b) ev;
          (t, h) = tail_for h list;
          h = fill_tail h list t cb ctx
      in \<lparr>callbacks = Some calls, heap = h\<rparr>)"

text \<open>\<open>bind(ev, callback, context)\<close>: the bus it returns.\<close>

definition bind :: "bus \<Rightarrow> string \<Rightarrow> nat option \<Rightarrow> jsval \<Rightarrow> error + bus" where
  "bind b ev cb ctx =
     (if inherited ev then Inl Unsupported else Inr (bind_own b ev cb ctx))"

subsection \<open>unbind\<close>

text \<open>
  The loop of \<open>unbind\<close>, entered with \<open>node\<close> at the list: \<open>prev\<close> takes \<open>node\<close> and \<open>node\<close>
  takes \<open>node.next\<close>; a node whose callback is not the one given is passed over; the
  first whose callback is the one given is unlinked and emptied, and the loop ends
  (\<open>break\<close>). The loop runs as long as there is a next node, so on a store whose nodes
  form a cycle it need not return: the result is \<open>None\<close> then.
\<close>

partial_function (option) unbind_loop :: "cell list \<Rightarrow> nat \<Rightarrow> nat \<Rightarrow> cell list option" where
  "unbind_loop h prev f =
     (case next' (h ! prev) of
        None \<Rightarrow> Some h
      | Some node \<Rightarrow>
          (if callback (h ! node) \<noteq> Some f then unbind_loop h node f
           else (let h = h[prev := (h ! prev)\<lparr>next' := next' (h ! node)\<rparr>];
                     h = h[node := (h ! node)\<lparr>context' := Null, callback := None\<rparr>]
                 in Some h)))"

declare unbind_loop.simps [code]

text \<open>
  The body of \<open>unbind\<close>, on an event name that the dictionary does not inherit. An
  event name that is missing or empty is not truthy, and neither is a callback that is
  missing. The result is \<open>None\<close> when the loop does not return.
\<close>

definition unbind_own :: "bus \<Rightarrow> string option \<Rightarrow> nat option \<Rightarrow> bus option" where
  "unbind_own b ev cb =
     (if ev = None \<or> ev = Some [] then Some (b\<lparr>callbacks := None\<rparr>)
      else (case callbacks b of
              None \<Rightarrow> Some b
            | Some calls \<Rightarrow>
                (case cb of
                   None \<Rightarrow>
                     Some \<lparr>callbacks = Some (calls(the ev \<mapsto> length (heap b))),
                           heap = heap b @ [empty_object]\<rparr>
                 | Some f \<Rightarrow>
                     (case calls (the ev) of
                        None \<Rightarrow> Some b
                      | Some node \<Rightarrow>
                          map_option (\<lambda>h. b\<lparr>heap := h\<rparr>) (unbind_loop (heap b) node f)))))"

text \<open>
  \<open>unbind(ev, callback)\<close>: the bus it returns. Without an event name no name is looked
  up.
\<close>

definition unbind :: "bus \<Rightarrow> string option \<Rightarrow> nat option \<Rightarrow> (error + bus) option" where
  "unbind b ev cb =
     (if ev \<noteq> None \<and> inherited (the ev) then Some (Inl Unsupported)
      else map_option Inr (unbind_own b ev cb))"

subsection \<open>trigger\<close>

text \<open>
  Calling a callback is recorded, not run: \<open>trigger\<close> yields the calls it makes, in
  order, each with its receiver and its arguments. This is what \<open>trigger\<close> does as long
  as no callback throws or changes the bindings of the bus it is called from.
\<close>

datatype receiver = This | Context jsval

datatype call = Call nat receiver "jsval list"

text \<open>
  The inner loop, \<open>while (node = node.next)\<close>: the next node, when it has a callback, is
  called with \<open>node.context || this\<close> as receiver. Like the loop of \<open>unbind\<close> it runs as
  long as there is a next node.
\<close>

partial_function (option) walk :: "cell list \<Rightarrow> nat \<Rightarrow> jsval list \<Rightarrow> call list \<Rightarrow> call list option" where
  "walk h node args trace =
     (case next' (h ! node) of
        None \<Rightarrow> Some trace
      | Some n \<Rightarrow>
          walk h n args
            (case callback (h ! n) of
               None \<Rightarrow> trace
             | Some f \<Rightarrow>
                 trace @ [Call f (if ToBoolean (context' (h ! n)) then Context (context' (h ! n))
                                  else This) args]))"

declare walk.simps [code]

text \<open>
  The outer loop, over the names that \<open>events.pop()\<close> yields, first to last. A name that
  is empty is not truthy and ends the loop. Listeners of \<open>all\<close> get all the arguments
  of \<open>trigger\<close>, the others all but the first.
\<close>

fun trigger_events :: "(string \<rightharpoonup> nat) \<Rightarrow> cell list \<Rightarrow> jsval list \<Rightarrow> string list \<Rightarrow> call list \<Rightarrow> call list option" where
  "trigger_events calls h arguments [] trace = Some trace"
| "trigger_events calls h arguments (ev # events) trace =
     (if ev = [] then Some trace
      else (case calls ev of
              None \<Rightarrow> trigger_events calls h arguments events trace
            | Some node \<Rightarrow>
                (case walk h node (if ev = ''all'' then arguments else drop 1 arguments) trace of
                   None \<Rightarrow> None
                 | Some trace' \<Rightarrow> trigger_events calls h arguments events trace')))"

text \<open>
  The body of \<open>trigger\<close>, on an event name that the dictionary does not inherit: the
  array \<open>['all', eventName]\<close> is popped from its end, so \<open>eventName\<close> comes first and
  \<open>all\<close> second. The result is \<open>None\<close> when a loop does not return.
\<close>

definition trigger_own :: "bus \<Rightarrow> string \<Rightarrow> jsval list \<Rightarrow> call list option" where
  "trigger_own b eventName rest =
     (case callbacks b of
        None \<Rightarrow> Some []
      | Some calls \<Rightarrow> trigger_events calls (heap b) (Str eventName # rest) [eventName, ''all''] [])"

text \<open>\<open>trigger(eventName, ...rest)\<close>: the calls it makes.\<close>

definition trigger :: "bus \<Rightarrow> string \<Rightarrow> jsval list \<Rightarrow> (error + call list) option" where
  "trigger b eventName rest =
     (if inherited eventName then Some (Inl Unsupported)
      else map_option Inr (trigger_own b eventName rest))"

subsection \<open>The registrations a bus holds\<close>

text \<open>
  A registration is a callback with its context. The calls that a sequence of
  registrations gives rise to, on given arguments: one for each registration that has
  a callback, in order.
\<close>

record node =
  node_callback :: "nat option"
  node_context :: jsval

fun invoke :: "node list \<Rightarrow> jsval list \<Rightarrow> call list" where
  "invoke [] args = []"
| "invoke (n # ns) args =
     (case node_callback n of
        None \<Rightarrow> invoke ns args
      | Some f \<Rightarrow>
          Call f (if ToBoolean (node_context n) then Context (node_context n) else This) args
            # invoke ns args)"

text \<open>The receiver of a call: the context when it is truthy, the bus otherwise.\<close>

definition receiver_of :: "jsval \<Rightarrow> receiver" where
  "receiver_of ctx = (if ToBoolean ctx then Context ctx else This)"

text \<open>
  \<open>path h a as z\<close>: following \<open>next\<close> from address \<open>a\<close> visits the cells at \<open>as\<close>, in
  order, and arrives at \<open>z\<close>.
\<close>

fun path :: "cell list \<Rightarrow> nat \<Rightarrow> nat list \<Rightarrow> nat \<Rightarrow> bool" where
  "path h a [] z = (a = z)"
| "path h a (x # xs) z =
     (a = x \<and> (case next' (h ! x) of None \<Rightarrow> False | Some a' \<Rightarrow> path h a' xs z))"

definition node_at :: "cell list \<Rightarrow> nat \<Rightarrow> node" where
  "node_at h a = \<lparr>node_callback = callback (h ! a), node_context = context' (h ! a)\<rparr>"

text \<open>
  \<open>linked h l as\<close>: the list at \<open>l\<close> holds the nodes at \<open>as\<close>. Either the list is still
  empty (\<open>{}\<close>, no \<open>next\<close> and no \<open>tail\<close>), or its \<open>next\<close> leads through \<open>as\<close> to its
  \<open>tail\<close>, which has neither a callback nor a \<open>next\<close>; the list, the nodes and the tail
  are cells of the store, all different.
\<close>

definition linked :: "cell list \<Rightarrow> nat \<Rightarrow> nat list \<Rightarrow> bool" where
  "linked h l as =
     (l < length h \<and>
      (case tail (h ! l) of
         None \<Rightarrow> next' (h ! l) = None \<and> as = []
       | Some t \<Rightarrow>
           t < length h \<and>
           (case next' (h ! l) of None \<Rightarrow> False | Some a \<Rightarrow> path h a as t) \<and>
           next' (h ! t) = None \<and> callback (h ! t) = None \<and>
           distinct (l # as @ [t]) \<and> list_all (\<lambda>x. x < length h) as))"

text \<open>
  \<open>registered b ev ns\<close>: the registrations of the event \<open>ev\<close> on the bus \<open>b\<close> are \<open>ns\<close>, in
  the order of the chain; none when the event has no list.
\<close>

definition registered :: "bus \<Rightarrow> string \<Rightarrow> node list \<Rightarrow> bool" where
  "registered b ev ns =
     (case callbacks b of
        None \<Rightarrow> ns = []
      | Some calls \<Rightarrow>
          (case calls ev of
             None \<Rightarrow> ns = []
           | Some l \<Rightarrow> (\<exists>as. linked (heap b) l as \<and> ns = map (node_at (heap b)) as)))"

text \<open>
  The buses that \<open>bind\<close> and \<open>unbind\<close> make of a fresh one, each call returning a bus:
  none of them is on a name that the dictionary inherits.
\<close>

inductive reachable :: "bus \<Rightarrow> bool" where
  start: "reachable fresh"
| after_bind: "reachable b \<Longrightarrow> bind b ev cb ctx = Inr b' \<Longrightarrow> reachable b'"
| after_unbind: "reachable b \<Longrightarrow> unbind b ev cb = Some (Inr b') \<Longrightarrow> reachable b'"


definition bind_all_own :: "bus \<Rightarrow> string \<Rightarrow> (nat \<times> jsval) list \<Rightarrow> bus" where
  "bind_all_own b ev regs = foldl (\<lambda>b' (f, ctx). bind_own b' ev (Some f) ctx) b regs"

subsection \<open>The invariant of the store\<close>

text \<open>
  The cells a list owns: itself, its nodes and its tail. On a bus in good order every
  event's list is linked, and no two events share a cell.
\<close>

definition cells :: "cell list \<Rightarrow> nat \<Rightarrow> nat list \<Rightarrow> nat set" where
  "cells h l as = insert l (set as) \<union> set_option (tail (h ! l))"

definition calls_of :: "bus \<Rightarrow> (string \<rightharpoonup> nat)" where
  "calls_of b = (case callbacks b of None \<Rightarrow> Map.empty | Some c \<Rightarrow> c)"

definition layout_ok :: "bus \<Rightarrow> (string \<Rightarrow> nat list) \<Rightarrow> bool" where
  "layout_ok b lay =
     ((\<forall>ev l. calls_of b ev = Some l \<longrightarrow> linked (heap b) l (lay ev)) \<and>
      (\<forall>ev ev' l l'. ev \<noteq> ev' \<longrightarrow> calls_of b ev = Some l \<longrightarrow> calls_of b ev' = Some l' \<longrightarrow>
         cells (heap b) l (lay ev) \<inter> cells (heap b) l' (lay ev') = {}))"

definition well_formed :: "bus \<Rightarrow> bool" where
  "well_formed b = (\<exists>lay. layout_ok b lay)"

text \<open>The state in which \<open>bind\<close> fills the tail: a chain whose tail may hold anything.\<close>

definition open_chain :: "cell list \<Rightarrow> nat \<Rightarrow> nat list \<Rightarrow> nat \<Rightarrow> bool" where
  "open_chain h l as t =
     (l < length h \<and> t < length h \<and> tail (h ! l) = Some t \<and>
      (case next' (h ! l) of None \<Rightarrow> False | Some a \<Rightarrow> path h a as t) \<and>
      next' (h ! t) = None \<and> distinct (l # as @ [t]) \<and> list_all (\<lambda>x. x < length h) as)"

section \<open>The classification of deltas\<close>

text \<open>
  C1, as the specification states it: for every delta exactly one of \<open>isAdd\<close>, \<open>isUpdate\<close>
  and \<open>isDelete\<close> is true. The delta \<open>{old: {}, changed: {}}\<close> refutes it: \<open>isAdd\<close> and
  \<open>isDelete\<close> look at one property each, and both answer true.
\<close>

theorem classification_not_exclusive:
  "isAdd \<lparr>old = Some [], changed = Some []\<rparr> \<and>
   isDelete \<lparr>old = Some [], changed = Some []\<rparr> \<and>
   \<not> exactly_one (isAdd \<lparr>old = Some [], changed = Some []\<rparr>)
                  (isUpdate \<lparr>old = Some [], changed = Some []\<rparr>)
                  (isDelete \<lparr>old = Some [], changed = Some []\<rparr>)"
  by (simp add: isAdd_def isDelete_def isUpdate_def exactly_one_def u_keys_def)

text \<open>
  C1, amended: \<open>isUpdate\<close> is true exactly when neither \<open>isAdd\<close> nor \<open>isDelete\<close> is, so at
  least one of the three is always true; exactly one is true unless both \<open>old\<close> and
  \<open>changed\<close> are absent or empty, and then \<open>isAdd\<close> and \<open>isDelete\<close> are both true.
\<close>

theorem classification_cases:
  "(isUpdate d \<longleftrightarrow> \<not> isAdd d \<and> \<not> isDelete d) \<and>
   (isAdd d \<or> isUpdate d \<or> isDelete d) \<and>
   (isAdd d \<longleftrightarrow> absent_or_empty (old d)) \<and>
   (isDelete d \<longleftrightarrow> absent_or_empty (changed d)) \<and>
   (exactly_one (isAdd d) (isUpdate d) (isDelete d) \<longleftrightarrow>
      \<not> (absent_or_empty (old d) \<and> absent_or_empty (changed d)))"
  by (auto simp: isAdd_def isDelete_def isUpdate_def exactly_one_def absent_or_empty_def
      u_keys_def split: option.splits)

section \<open>The tests of the type descriptors\<close>

text \<open>
  C2, as the specification states it: \<open>string.test\<close> returns true for every raw value.
  The number \<open>42\<close> refutes it: the test asks for \<open>typeof v === 'string'\<close>.
\<close>

theorem string_test_number_counterexample: "\<not> string_test (Num (Fin 42))"
  by (simp add: string_test_def)

text \<open>
  C2, amended: \<open>string.test\<close> returns true exactly for the values that are strings, and
  false for every other value.
\<close>

theorem string_test_iff: "string_test v \<longleftrightarrow> (\<exists>s. v = Str s)"
  by (cases v) (simp_all add: string_test_def)

section \<open>Type inference\<close>

lemma default_pattern:
  "parse_pattern (regexp_source time_format) =
     Some [Digit, Digit, Lit CHR ''/'', Digit, Digit, Lit CHR ''/'', Digit, Digit, Digit, Digit]"
  by (simp add: regexp_source_def time_format_def formatLookup_def special_def)

lemma candidates_eq: "candidates = [''boolean'', ''number'', ''time'', ''string'']"
  by (simp add: candidates_def types_keys_def splice1_def)

lemma time_test_total: "\<exists>r tbl'. time_test tbl v None = Inr (r, tbl')"
  by (cases v) (auto simp: time_test_def time_regexp_def or_format_def default_pattern
      split: option.splits prod.splits)

lemma typeOf_cases:
  "\<exists>r tbl'. time_test tbl v None = Inr (r, tbl') \<and>
     typeOf h tbl v =
       (if boolean_test h v then Inr (''boolean'', tbl)
        else if number_test h v then Inr (''number'', tbl)
        else if r then Inr (''time'', tbl')
        else Inr (''string'', tbl'))"
proof -
  obtain r tbl' where t: "time_test tbl v None = Inr (r, tbl')"
    using time_test_total by blast
  show ?thesis
    by (auto simp add: t typeOf_def candidates_eq types_test_def)
qed

lemma typeOf_true: "typeOf h tbl (Bool True) = Inr (''boolean'', tbl)"
  by (simp add: typeOf_def candidates_eq types_test_def boolean_test_def)

lemma typeOf_42: "typeOf h tbl (Num (Fin 42)) = Inr (''number'', tbl)"
  by (simp add: typeOf_def candidates_eq types_test_def boolean_test_def number_test_def
      boolean_regexp_def digits.simps)

lemma typeOf_str_42: "typeOf h tbl (Str ''42'') = Inr (''number'', tbl)"
  by (simp add: typeOf_def candidates_eq types_test_def boolean_test_def number_test_def
      boolean_regexp_def number_regexp_def is_digit_def)

text \<open>No position of \<open>hello\<close> starts a date, wherever the search begins.\<close>

lemma hello_no_match:
  "regexp_test_global
     [Digit, Digit, Lit CHR ''/'', Digit, Digit, Lit CHR ''/'', Digit, Digit, Digit, Digit]
     i ''hello'' = (False, 0)"
proof (cases "i > 5")
  case True
  then show ?thesis by (simp add: regexp_test_global_def)
next
  case False
  then have "i \<in> {0, 1, 2, 3, 4, 5}" by auto
  then show ?thesis
    by (auto simp add: regexp_test_global_def is_digit_def)
qed

lemma typeOf_hello: "typeOf h tbl (Str ''hello'') = Inr (''string'', tbl(time_format \<mapsto> 0))"
  by (auto simp add: typeOf_def candidates_eq types_test_def boolean_test_def number_test_def
      boolean_regexp_def number_regexp_def is_digit_def time_test_def time_regexp_def or_format_def
      default_pattern hello_no_match string_test_def split: option.splits)

lemma typeOf_null: "typeOf h tbl Null = Inr (''time'', tbl)"
  by (simp add: typeOf_def candidates_eq types_test_def boolean_test_def number_test_def
      boolean_regexp_def number_regexp_def is_digit_def time_test_def)

text \<open>
  C3: \<open>typeOf\<close> tries the types in the order boolean, number, time, string, the string
  type last; it never throws; its answer is the first of boolean, number and time whose
  test accepts the value, and \<open>string\<close> when none does (the time test runs only when the
  two before it have failed, and leaves its table behind). In particular
  \<open>typeOf(true)\<close> is \<open>boolean\<close>, \<open>typeOf(42)\<close> and \<open>typeOf("42")\<close> are \<open>number\<close>, and
  \<open>typeOf("hello")\<close> is \<open>string\<close>, whatever the table of regular expressions holds.
\<close>

theorem typeOf_first_match:
  "candidates = [''boolean'', ''number'', ''time'', ''string''] \<and>
   (\<exists>r tbl'. time_test tbl v None = Inr (r, tbl') \<and>
      typeOf h tbl v =
        (if boolean_test h v then Inr (''boolean'', tbl)
         else if number_test h v then Inr (''number'', tbl)
         else if r then Inr (''time'', tbl')
         else Inr (''string'', tbl'))) \<and>
   typeOf h tbl (Bool True) = Inr (''boolean'', tbl) \<and>
   typeOf h tbl (Num (Fin 42)) = Inr (''number'', tbl) \<and>
   typeOf h tbl (Str ''42'') = Inr (''number'', tbl) \<and>
   typeOf h tbl (Str ''hello'') = Inr (''string'', tbl(time_format \<mapsto> 0))"
  using candidates_eq typeOf_cases [of tbl v h] typeOf_true typeOf_42 typeOf_str_42 typeOf_hello
  by blast

section \<open>The memoised regular expression of the time type\<close>

lemma first_test:
  "time_test Map.empty (Str ''25/12/2012'') None = Inr (True, [time_format \<mapsto> 10])"
  by (simp add: time_test_def time_regexp_def or_format_def default_pattern
      regexp_test_global_def is_digit_def eval_nat_numeral)

lemma second_test:
  "time_test [time_format \<mapsto> 10] (Str ''25/12/2012'') None = Inr (False, [time_format \<mapsto> 0])"
  by (simp add: time_test_def time_regexp_def or_format_def default_pattern
      regexp_test_global_def is_digit_def)

lemma first_typeOf:
  "typeOf h Map.empty (Str ''25/12/2012'') = Inr (''time'', [time_format \<mapsto> 10])"
  by (simp add: typeOf_def candidates_eq types_test_def boolean_test_def number_test_def
      boolean_regexp_def number_regexp_def is_digit_def first_test)

lemma second_typeOf:
  "typeOf h [time_format \<mapsto> 10] (Str ''25/12/2012'') = Inr (''string'', [time_format \<mapsto> 0])"
  by (simp add: typeOf_def candidates_eq types_test_def boolean_test_def number_test_def
      boolean_regexp_def number_regexp_def is_digit_def second_test string_test_def)

text \<open>
  C4: the regular expression of a format is compiled once, with the global flag, and
  shared by all calls. On the date \<open>25/12/2012\<close> the first \<open>time.test\<close> succeeds and
  leaves \<open>lastIndex\<close> at \<open>10\<close>, the end of the match; the same call again, on the table
  the first one left, searches from there, fails and resets \<open>lastIndex\<close> to \<open>0\<close>.
  \<open>typeOf\<close> inherits this: \<open>time\<close> the first time, \<open>string\<close> the second.
\<close>

theorem time_test_not_repeatable:
  "time_test Map.empty (Str ''25/12/2012'') None = Inr (True, [time_format \<mapsto> 10]) \<and>
   time_test [time_format \<mapsto> 10] (Str ''25/12/2012'') None = Inr (False, [time_format \<mapsto> 0]) \<and>
   typeOf h Map.empty (Str ''25/12/2012'') = Inr (''time'', [time_format \<mapsto> 10]) \<and>
   typeOf h [time_format \<mapsto> 10] (Str ''25/12/2012'') = Inr (''string'', [time_format \<mapsto> 0])"
  using first_test second_test first_typeOf second_typeOf by blast

section \<open>Coercion\<close>

lemma time_coerce_not_string: "time_coerce h v f \<noteq> Str s"
  by (cases v) (simp_all add: time_coerce_def)

lemma time_test_non_string: "(\<And>s. w \<noteq> Str s) \<Longrightarrow> time_test tbl w f = Inr (True, tbl)"
  by (cases w) (auto simp: time_test_def)

text \<open>
  C8: for each of the four types and every value that the type's test accepts, the
  type's \<open>coerce\<close> does not throw, and when its result is not \<open>null\<close> the test accepts
  the result as well (on any table of regular expressions).
\<close>

theorem coerce_then_test:
  assumes "type \<in> set types_keys"
    and "types_test h type tbl v = Inr (True, tbl1)"
  shows "\<exists>w. types_coerce h type v = Inr w \<and>
           (w \<noteq> Null \<longrightarrow> (\<exists>tbl3. types_test h type tbl2 w = Inr (True, tbl3)))"
proof -
  consider "type = ''string''" | "type = ''boolean''" | "type = ''number''" | "type = ''time''"
    using assms(1) by (auto simp: types_keys_def)
  then show ?thesis
  proof cases
    case 1
    with assms(2) obtain s where "v = Str s"
      by (cases v) (simp_all add: types_test_def string_test_def)
    with 1 show ?thesis
      by (simp add: types_coerce_def types_test_def string_coerce_def string_test_def)
  next
    case 2
    then show ?thesis
      by (simp add: types_coerce_def types_test_def boolean_coerce_def boolean_test_def)
  next
    case 3
    then show ?thesis
      by (simp add: types_coerce_def types_test_def number_coerce_def number_test_def Let_def)
  next
    case 4
    have "time_test tbl2 (time_coerce h v None) None = Inr (True, tbl2)"
      by (rule time_test_non_string) (rule time_coerce_not_string)
    with 4 show ?thesis
      by (simp add: types_coerce_def types_test_def)
  qed
qed

text \<open>
  C8 at the string \<open>"true"\<close> and the boolean type: the test accepts it, \<open>coerce\<close> gives
  the boolean \<open>true\<close>, which is not \<open>null\<close>, and the test accepts that.
\<close>

theorem coerce_then_test_witness:
  "\<forall>h. ''boolean'' \<in> set types_keys \<and>
       types_test h ''boolean'' Map.empty (Str ''true'') = Inr (True, Map.empty) \<and>
       (\<exists>w. types_coerce h ''boolean'' (Str ''true'') = Inr w \<and> w \<noteq> Null \<and>
            (\<exists>tbl3. types_test h ''boolean'' Map.empty w = Inr (True, tbl3)))"
proof
  fix h
  have k: "''boolean'' \<in> set types_keys"
    by (simp add: types_keys_def)
  have t: "types_test h ''boolean'' Map.empty (Str ''true'') = Inr (True, Map.empty)"
    by (simp add: types_test_def boolean_test_def boolean_regexp_def)
  have c: "types_coerce h ''boolean'' (Str ''true'') = Inr (Bool True)"
    by (simp add: types_coerce_def boolean_coerce_def)
  from coerce_then_test [OF k t, of Map.empty] c k t
  show "''boolean'' \<in> set types_keys \<and>
       types_test h ''boolean'' Map.empty (Str ''true'') = Inr (True, Map.empty) \<and>
       (\<exists>w. types_coerce h ''boolean'' (Str ''true'') = Inr w \<and> w \<noteq> Null \<and>
            (\<exists>tbl3. types_test h ''boolean'' Map.empty w = Inr (True, tbl3)))"
    by simp
qed

text \<open>
  C10: \<open>string.coerce(null)\<close> is \<open>null\<close>; \<open>number.coerce(null)\<close> is \<open>null\<close>;
  \<open>number.coerce(v)\<close> is \<open>null\<close> whenever \<open>Number(v)\<close> is not a number; and
  \<open>typeOf(null)\<close> returns a type name, \<open>time\<close>, without throwing.
\<close>

theorem null_handling:
  "string_coerce h Null = Inr Null \<and>
   number_coerce h Null = Null \<and>
   (ToNumber h v = NaN \<longrightarrow> number_coerce h v = Null) \<and>
   typeOf h tbl Null = Inr (''time'', tbl)"
  by (simp add: string_coerce_def number_coerce_def typeOf_null)

text \<open>C10 at \<open>undefined\<close>, which \<open>Number\<close> converts to \<open>NaN\<close>.\<close>

theorem null_handling_witness:
  "\<forall>h. string_coerce h Null = Inr Null \<and>
       number_coerce h Null = Null \<and>
       ToNumber h Undefined = NaN \<and> number_coerce h Undefined = Null \<and>
       typeOf h Map.empty Null = Inr (''time'', Map.empty)"
  using null_handling [of _ Undefined Map.empty] by simp

section \<open>The comparisons\<close>

lemma string_compare_Str:
  "string_compare h (Str s) (Str t) = (if s < t then - 1 else if t < s then 1 else 0)"
  by (simp add: string_compare_def js_lt_def js_gt_def)

lemma boolean_compare_Bool:
  "boolean_compare h (Bool p) (Bool q) = (if p = q then 0 else if q then - 1 else 1)"
  by (simp add: boolean_compare_def js_lt_def)

lemma num_lt_irrefl: "\<not> num_lt a a"
  by (cases a) simp_all

lemma num_lt_asym: "num_lt a b \<Longrightarrow> \<not> num_lt b a"
  by (cases a; cases b) simp_all

lemma num_lt_total: "a \<noteq> NaN \<Longrightarrow> b \<noteq> NaN \<Longrightarrow> num_lt a b \<or> a = b \<or> num_lt b a"
  by (cases a; cases b) auto

lemma num_lt_trans: "num_lt a b \<Longrightarrow> num_lt b c \<Longrightarrow> num_lt a c"
  by (cases a; cases b; cases c) simp_all

lemma number_compare_Num:
  "a \<noteq> NaN \<Longrightarrow> b \<noteq> NaN \<Longrightarrow>
   number_compare h (Num a) (Num b) = (if a = b then 0 else if num_lt a b then - 1 else 1)"
  by (cases a; cases b) (simp_all add: number_compare_def js_lt_def)

lemma time_compare_Obj:
  "time_compare h (Obj x) (Obj y) =
     (if num_lt (ovalue x) (ovalue y) then - 1 else if num_lt (ovalue y) (ovalue x) then 1 else 0)"
  by (simp add: time_compare_def js_lt_def js_gt_def)

lemma string_order: "order_laws (string_compare h) (=) (Str s) (Str t) (Str u)"
  by (auto simp add: order_laws_def string_compare_Str)

lemma boolean_order: "order_laws (boolean_compare h) (=) (Bool p) (Bool q) (Bool r)"
  by (auto simp add: order_laws_def boolean_compare_Bool)

lemma number_order:
  assumes "a \<noteq> NaN" "b \<noteq> NaN" "c \<noteq> NaN"
  shows "order_laws (number_compare h) (=) (Num a) (Num b) (Num c)"
  using assms num_lt_total [of a b] num_lt_asym [of a b] num_lt_trans [of a b c]
    num_lt_irrefl [of a]
  by (auto simp add: order_laws_def number_compare_Num split: if_splits)

lemma time_order:
  assumes "ovalue x \<noteq> NaN" "ovalue y \<noteq> NaN" "ovalue z \<noteq> NaN"
  shows "order_laws (time_compare h) same_instant (Obj x) (Obj y) (Obj z)"
  using assms num_lt_total [of "ovalue x" "ovalue y"] num_lt_asym [of "ovalue x" "ovalue y"]
    num_lt_trans [of "ovalue x" "ovalue y" "ovalue z"] num_lt_irrefl [of "ovalue x"]
  by (auto simp add: order_laws_def time_compare_Obj same_instant_def split: if_splits)

lemma boolean_monotone:
  "boolean_compare h (Bool p) (Bool q) = - 1 \<longleftrightarrow>
     js_lt h (boolean_numeric (Bool p)) (boolean_numeric (Bool q))"
  by (simp add: boolean_compare_Bool boolean_numeric_def js_lt_def)

lemma number_monotone:
  "number_compare h (Num a) (Num b) = - 1 \<longleftrightarrow>
     js_lt h (number_numeric (Num a)) (number_numeric (Num b))"
  using num_lt_irrefl [of a]
  by (cases a; cases b) (auto simp add: number_compare_def number_numeric_def js_lt_def)

lemma time_monotone:
  "time_compare h (Obj x) (Obj y) = - 1 \<longleftrightarrow>
     (\<exists>nx ny. time_numeric (Obj x) = Inr nx \<and> time_numeric (Obj y) = Inr ny \<and> js_lt h nx ny)"
  by (simp add: time_compare_Obj js_lt_def)

text \<open>
  C9, as the specification states it: for each type \<open>compare\<close> is a strict total order
  on the values of the type, \<open>0\<close> exactly on equal values, and agrees with the order of
  the type's \<open>numeric\<close>. Three values refute it. \<open>NaN\<close> is a number, and
  \<open>number.compare(NaN, NaN)\<close> is \<open>1\<close>: not \<open>0\<close>, and not the negation of itself. A time
  object that is not a valid date has \<open>NaN\<close> for its number, and \<open>time.compare\<close> answers
  \<open>0\<close> between it and any date. And \<open>string.numeric\<close> returns the index its caller
  passes: with \<open>"a"\<close> at index \<open>1\<close> and \<open>"b"\<close> at index \<open>0\<close>, \<open>"a"\<close> compares below \<open>"b"\<close>
  while its \<open>numeric\<close> is not below that of \<open>"b"\<close>.
\<close>

theorem compare_laws_counterexample:
  "\<forall>h. number_compare h (Num NaN) (Num NaN) = 1 \<and>
       number_compare h (Num NaN) (Num NaN) \<noteq> - number_compare h (Num NaN) (Num NaN) \<and>
       time_compare h (Obj (JSObj 0 NaN ''Invalid date'')) (Obj (JSObj 1 (Fin 0) ''epoch'')) = 0 \<and>
       string_compare h (Str ''a'') (Str ''b'') = - 1 \<and>
       \<not> js_lt h (string_numeric (Str ''a'') (Num (Fin 1))) (string_numeric (Str ''b'') (Num (Fin 0)))"
  by (simp add: number_compare_def js_lt_def string_compare_def string_numeric_def
      time_compare_def js_gt_def)

text \<open>
  C9, amended: \<open>compare\<close> obeys the laws of a total order (results in \<open>-1\<close>, \<open>0\<close>, \<open>1\<close>;
  antisymmetric; \<open>0\<close> exactly on equal values; transitive) on strings, on booleans, on
  the numbers other than \<open>NaN\<close>, and on the time objects whose number is not \<open>NaN\<close>,
  where equal means the same instant. For booleans, numbers and time objects \<open>compare\<close>
  answers \<open>-1\<close> exactly when the \<open>numeric\<close> of the first is below the \<open>numeric\<close> of the
  second. \<open>string.numeric\<close> is the index passed to it, whatever the string.
\<close>

theorem compare_laws:
  "order_laws (string_compare h) (=) (Str s) (Str t) (Str u) \<and>
   order_laws (boolean_compare h) (=) (Bool p) (Bool q) (Bool r) \<and>
   (a \<noteq> NaN \<and> b \<noteq> NaN \<and> c \<noteq> NaN \<longrightarrow>
      order_laws (number_compare h) (=) (Num a) (Num b) (Num c)) \<and>
   (ovalue x \<noteq> NaN \<and> ovalue y \<noteq> NaN \<and> ovalue z \<noteq> NaN \<longrightarrow>
      order_laws (time_compare h) same_instant (Obj x) (Obj y) (Obj z)) \<and>
   (boolean_compare h (Bool p) (Bool q) = - 1 \<longleftrightarrow>
      js_lt h (boolean_numeric (Bool p)) (boolean_numeric (Bool q))) \<and>
   (number_compare h (Num a) (Num b) = - 1 \<longleftrightarrow>
      js_lt h (number_numeric (Num a)) (number_numeric (Num b))) \<and>
   (time_compare h (Obj x) (Obj y) = - 1 \<longleftrightarrow>
      (\<exists>nx ny. time_numeric (Obj x) = Inr nx \<and> time_numeric (Obj y) = Inr ny \<and> js_lt h nx ny)) \<and>
   string_numeric (Str s) i = i"
  using string_order [of h s t u] boolean_order [of h p q r] number_order [of a b c h]
    time_order [of x y z h] boolean_monotone [of h p q] number_monotone [of h a b]
    time_monotone [of h x y]
  by (simp add: string_numeric_def)

text \<open>
  C9, amended, at the numbers \<open>1\<close>, \<open>2\<close>, \<open>Infinity\<close> and at three dates a day apart:
  none of them is \<open>NaN\<close>, and each chain compares \<open>-1\<close>, \<open>-1\<close> and \<open>-1\<close>.
\<close>

theorem compare_laws_witness:
  "\<forall>h. Fin 1 \<noteq> NaN \<and> Fin 2 \<noteq> NaN \<and> PInf \<noteq> NaN \<and>
       order_laws (number_compare h) (=) (Num (Fin 1)) (Num (Fin 2)) (Num PInf) \<and>
       number_compare h (Num (Fin 1)) (Num (Fin 2)) = - 1 \<and>
       number_compare h (Num (Fin 2)) (Num PInf) = - 1 \<and>
       number_compare h (Num (Fin 1)) (Num PInf) = - 1 \<and>
       ovalue (JSObj 1 (Fin 0) ''day 0'') \<noteq> NaN \<and>
       ovalue (JSObj 2 (Fin 86400000) ''day 1'') \<noteq> NaN \<and>
       ovalue (JSObj 3 (Fin 172800000) ''day 2'') \<noteq> NaN \<and>
       order_laws (time_compare h) same_instant (Obj (JSObj 1 (Fin 0) ''day 0''))
         (Obj (JSObj 2 (Fin 86400000) ''day 1'')) (Obj (JSObj 3 (Fin 172800000) ''day 2'')) \<and>
       time_compare h (Obj (JSObj 1 (Fin 0) ''day 0'')) (Obj (JSObj 2 (Fin 86400000) ''day 1'')) = - 1 \<and>
       time_compare h (Obj (JSObj 2 (Fin 86400000) ''day 1'')) (Obj (JSObj 3 (Fin 172800000) ''day 2'')) = - 1 \<and>
       time_compare h (Obj (JSObj 1 (Fin 0) ''day 0'')) (Obj (JSObj 3 (Fin 172800000) ''day 2'')) = - 1"
proof
  fix h
  have n: "number_compare h (Num (Fin 1)) (Num (Fin 2)) = - 1"
    "number_compare h (Num (Fin 2)) (Num PInf) = - 1"
    "number_compare h (Num (Fin 1)) (Num PInf) = - 1"
    by (simp_all add: number_compare_def js_lt_def)
  have t: "time_compare h (Obj (JSObj 1 (Fin 0) ''day 0'')) (Obj (JSObj 2 (Fin 86400000) ''day 1'')) = - 1"
    "time_compare h (Obj (JSObj 2 (Fin 86400000) ''day 1'')) (Obj (JSObj 3 (Fin 172800000) ''day 2'')) = - 1"
    "time_compare h (Obj (JSObj 1 (Fin 0) ''day 0'')) (Obj (JSObj 3 (Fin 172800000) ''day 2'')) = - 1"
    by (simp_all add: time_compare_def js_lt_def)
  from compare_laws [of h "''a''" "''b''" "''c''" False True True "Fin 1" "Fin 2" PInf
      "JSObj 1 (Fin 0) ''day 0''" "JSObj 2 (Fin 86400000) ''day 1''"
      "JSObj 3 (Fin 172800000) ''day 2''" Null] n t
  show "Fin 1 \<noteq> NaN \<and> Fin 2 \<noteq> NaN \<and> PInf \<noteq> NaN \<and>
       order_laws (number_compare h) (=) (Num (Fin 1)) (Num (Fin 2)) (Num PInf) \<and>
       number_compare h (Num (Fin 1)) (Num (Fin 2)) = - 1 \<and>
       number_compare h (Num (Fin 2)) (Num PInf) = - 1 \<and>
       number_compare h (Num (Fin 1)) (Num PInf) = - 1 \<and>
       ovalue (JSObj 1 (Fin 0) ''day 0'') \<noteq> NaN \<and>
       ovalue (JSObj 2 (Fin 86400000) ''day 1'') \<noteq> NaN \<and>
       ovalue (JSObj 3 (Fin 172800000) ''day 2'') \<noteq> NaN \<and>
       order_laws (time_compare h) same_instant (Obj (JSObj 1 (Fin 0) ''day 0''))
         (Obj (JSObj 2 (Fin 86400000) ''day 1'')) (Obj (JSObj 3 (Fin 172800000) ''day 2'')) \<and>
       time_compare h (Obj (JSObj 1 (Fin 0) ''day 0'')) (Obj (JSObj 2 (Fin 86400000) ''day 1'')) = - 1 \<and>
       time_compare h (Obj (JSObj 2 (Fin 86400000) ''day 1'')) (Obj (JSObj 3 (Fin 172800000) ''day 2'')) = - 1 \<and>
       time_compare h (Obj (JSObj 1 (Fin 0) ''day 0'')) (Obj (JSObj 3 (Fin 172800000) ''day 2'')) = - 1"
    by simp
qed

section \<open>Chains in the store\<close>

text \<open>A path depends only on the cells it visits, and is fixed by where it starts and ends.\<close>

lemma path_frame:
  "(\<And>x. x \<in> set as \<Longrightarrow> h' ! x = h ! x) \<Longrightarrow> path h' a as z = path h a as z"
  by (induction as arbitrary: a) (auto split: option.splits)

lemma path_unique:
  "path h a as z \<Longrightarrow> path h a bs z \<Longrightarrow> z \<notin> set as \<Longrightarrow> z \<notin> set bs \<Longrightarrow> as = bs"
proof (induction as arbitrary: a bs)
  case Nil
  then show ?case by (cases bs) auto
next
  case (Cons x xs)
  then show ?case by (cases bs) (auto split: option.splits)
qed

lemma linked_unique: "linked h l as \<Longrightarrow> linked h l bs \<Longrightarrow> as = bs"
  by (auto simp add: linked_def split: option.splits dest: path_unique)

lemma registered_unique: "registered b ev ns \<Longrightarrow> registered b ev ms \<Longrightarrow> ns = ms"
  by (auto simp add: registered_def split: option.splits dest: linked_unique)

text \<open>The inner loop of \<open>trigger\<close> along a chain calls the nodes of the chain, in order.\<close>

lemma walk_path:
  "path h a as t \<Longrightarrow> next' (h ! t) = None \<Longrightarrow> callback (h ! t) = None \<Longrightarrow>
   next' (h ! p) = Some a \<Longrightarrow>
   walk h p args tr = Some (tr @ invoke (map (node_at h) as) args)"
proof (induction as arbitrary: a p tr)
  case Nil
  then show ?case
    by (simp add: walk.simps [of h p] walk.simps [of h t])
next
  case (Cons x xs)
  from Cons.prems obtain a' where a: "a = x" "next' (h ! x) = Some a'" "path h a' xs t"
    by (auto split: option.splits)
  show ?case
    using Cons.IH [OF a(3) Cons.prems(2,3) a(2)] Cons.prems(4) a(1)
    by (simp add: walk.simps [of h p] node_at_def split: option.splits)
qed

lemma walk_chain:
  assumes "linked h l as"
  shows "walk h l args tr = Some (tr @ invoke (map (node_at h) as) args)"
proof (cases "tail (h ! l)")
  case None
  with assms show ?thesis
    by (simp add: linked_def walk.simps [of h l])
next
  case (Some t)
  with assms obtain a where "next' (h ! l) = Some a" "path h a as t"
    "next' (h ! t) = None" "callback (h ! t) = None"
    by (auto simp add: linked_def split: option.splits)
  then show ?thesis by (simp add: walk_path)
qed

lemma walk_registered:
  "registered b ev ns \<Longrightarrow> callbacks b = Some calls \<Longrightarrow> calls ev = Some l \<Longrightarrow>
   walk (heap b) l args tr = Some (tr @ invoke ns args)"
  by (auto simp add: registered_def walk_chain)

lemma registered_absent:
  "registered b ev ns \<Longrightarrow> callbacks b = Some calls \<Longrightarrow> calls ev = None \<Longrightarrow> ns = []"
  by (simp add: registered_def)

lemma trigger_registered:
  assumes "registered b ev ns" and "registered b ''all'' ms"
  shows "trigger_own b ev rest =
     Some (if ev = [] then []
           else invoke ns (if ev = ''all'' then Str ev # rest else rest)
                @ invoke ms (Str ev # rest))"
proof (cases "callbacks b")
  case None
  with assms show ?thesis by (simp add: trigger_own_def registered_def)
next
  case (Some calls)
  show ?thesis
  proof (cases "ev = ''all''")
    case True
    with assms have "ms = ns" by (auto dest: registered_unique)
    with True assms Some show ?thesis
      by (cases "calls ''all''")
        (auto simp add: trigger_own_def walk_registered dest: registered_absent)
  next
    case False
    with assms Some show ?thesis
      by (cases "calls ev"; cases "calls ''all''")
        (auto simp add: trigger_own_def walk_registered dest: registered_absent)
  qed
qed

text \<open>A list is untouched by writes outside the cells it owns.\<close>

lemma path_append:
  "path h a (as @ bs) z = (\<exists>m. path h a as m \<and> path h m bs z)"
  by (induction as arbitrary: a) (auto split: option.splits)

lemma linked_bound: "linked h l as \<Longrightarrow> x \<in> cells h l as \<Longrightarrow> x < length h"
  by (auto simp add: linked_def cells_def list_all_iff split: option.splits)

lemma linked_frame:
  assumes "linked h l as" and "length h \<le> length h'"
    and "\<And>x. x \<in> cells h l as \<Longrightarrow> h' ! x = h ! x"
  shows "linked h' l as \<and> cells h' l as = cells h l as \<and>
         map (node_at h') as = map (node_at h) as"
proof -
  have l: "h' ! l = h ! l" using assms(3) by (simp add: cells_def)
  have as: "\<And>x. x \<in> set as \<Longrightarrow> h' ! x = h ! x" using assms(3) by (simp add: cells_def)
  have p: "\<And>a z. path h' a as z = path h a as z"
    by (rule path_frame) (simp add: as)
  have t: "\<And>t. tail (h ! l) = Some t \<Longrightarrow> h' ! t = h ! t"
    using assms(3) by (simp add: cells_def)
  have "linked h' l as"
    using assms(1,2) by (auto simp add: linked_def l p t list_all_iff split: option.splits)
  moreover have "cells h' l as = cells h l as" by (simp add: cells_def l)
  moreover have "map (node_at h') as = map (node_at h) as"
    by (simp add: node_at_def as)
  ultimately show ?thesis by simp
qed

subsection \<open>bind keeps the store in good order\<close>

lemma fill_tail_length: "length (fill_tail h l t cb ctx) = Suc (length h)"
  by (simp add: fill_tail_def Let_def)

lemma fill_tail_nth:
  assumes "l < length h" "t < length h" "l \<noteq> t"
  shows "fill_tail h l t cb ctx ! l = (h ! l)\<lparr>tail := Some (length h)\<rparr>"
    and "fill_tail h l t cb ctx ! t = (h ! t)\<lparr>callback := cb, context' := ctx, next' := Some (length h)\<rparr>"
    and "fill_tail h l t cb ctx ! length h = empty_object"
    and "\<And>x. x < length h \<Longrightarrow> x \<noteq> l \<Longrightarrow> x \<noteq> t \<Longrightarrow> fill_tail h l t cb ctx ! x = h ! x"
  using assms by (simp_all add: fill_tail_def Let_def nth_append nth_list_update)

lemma fill_tail_chain:
  assumes "open_chain h l as t"
  shows "linked (fill_tail h l t cb ctx) l (as @ [t])"
    and "map (node_at (fill_tail h l t cb ctx)) (as @ [t]) =
           map (node_at h) as @ [\<lparr>node_callback = cb, node_context = ctx\<rparr>]"
    and "cells (fill_tail h l t cb ctx) l (as @ [t]) = insert l (set as) \<union> {t, length h}"
proof -
  let ?h = "fill_tail h l t cb ctx"
  from assms have b: "l < length h" "t < length h" "l \<noteq> t" and d: "l \<notin> set as" "t \<notin> set as"
    and lt: "\<And>x. x \<in> set as \<Longrightarrow> x < length h"
    by (auto simp add: open_chain_def list_all_iff)
  note n = fill_tail_nth [OF b]
  from assms obtain a where a: "next' (h ! l) = Some a" "path h a as t"
    by (auto simp add: open_chain_def split: option.splits)
  have as: "\<And>x. x \<in> set as \<Longrightarrow> ?h ! x = h ! x"
    using d lt by (intro n(4)) auto
  have "path ?h a as t"
    using a(2) path_frame [of as ?h h a t] as by simp
  moreover have "path ?h t [t] (length h)"
    by (simp add: n(2))
  ultimately have p: "path ?h a (as @ [t]) (length h)"
    by (auto simp add: path_append)
  show "linked ?h l (as @ [t])"
    using assms b d lt p a(1)
    by (auto simp add: linked_def n fill_tail_length empty_object_def open_chain_def list_all_iff
        dest: lt less_SucI)
  show "map (node_at ?h) (as @ [t]) = map (node_at h) as @ [\<lparr>node_callback = cb, node_context = ctx\<rparr>]"
    by (simp add: node_at_def as n(2))
  show "cells ?h l (as @ [t]) = insert l (set as) \<union> {t, length h}"
    by (auto simp add: cells_def n(1))
qed

lemma layout_chain:
  "layout_ok b lay \<Longrightarrow> calls_of b ev = Some l \<Longrightarrow> linked (heap b) l (lay ev)"
  by (simp add: layout_ok_def)

lemma layout_disjoint:
  "layout_ok b lay \<Longrightarrow> ev \<noteq> ev' \<Longrightarrow> calls_of b ev = Some l \<Longrightarrow> calls_of b ev' = Some l' \<Longrightarrow>
   cells (heap b) l (lay ev) \<inter> cells (heap b) l' (lay ev') = {}"
  by (simp add: layout_ok_def)

lemma bind_prepare:
  assumes lay: "layout_ok b lay"
  shows "\<exists>l t as h2.
    bind_own b ev cb ctx = \<lparr>callbacks = Some ((calls_of b)(ev \<mapsto> l)), heap = fill_tail h2 l t cb ctx\<rparr> \<and>
    as = (if calls_of b ev = None then [] else lay ev) \<and>
    open_chain h2 l as t \<and> length (heap b) \<le> length h2 \<and>
    (\<forall>x < length (heap b). x \<noteq> l \<longrightarrow> h2 ! x = heap b ! x) \<and>
    map (node_at h2) as = map (node_at (heap b)) as \<and>
    (\<forall>ev' l'. ev' \<noteq> ev \<longrightarrow> calls_of b ev' = Some l' \<longrightarrow>
       l \<notin> cells (heap b) l' (lay ev') \<and> t \<notin> cells (heap b) l' (lay ev') \<and>
       set as \<inter> cells (heap b) l' (lay ev') = {})"
proof (cases "calls_of b ev")
  case None
  let ?h = "heap b"
  let ?l = "length ?h"
  let ?t = "Suc (length ?h)"
  let ?h2 = "((?h @ [empty_object]) @ [empty_object])
               [?l := ((?h @ [empty_object]) ! ?l)\<lparr>next' := Some ?t, tail := Some ?t\<rparr>]"
  have eq: "bind_own b ev cb ctx =
      \<lparr>callbacks = Some ((calls_of b)(ev \<mapsto> ?l)), heap = fill_tail ?h2 ?l ?t cb ctx\<rparr>"
    using None
    by (simp add: bind_own_def calls_of_def list_for_def tail_for_def Let_def empty_object_def
        split: option.splits)
  have oc: "open_chain ?h2 ?l [] ?t"
    by (simp add: open_chain_def nth_append nth_list_update empty_object_def)
  have fr: "\<forall>x < length ?h. x \<noteq> ?l \<longrightarrow> ?h2 ! x = ?h ! x"
    by (simp add: nth_append)
  have other: "\<forall>ev' l'. ev' \<noteq> ev \<longrightarrow> calls_of b ev' = Some l' \<longrightarrow>
       ?l \<notin> cells ?h l' (lay ev') \<and> ?t \<notin> cells ?h l' (lay ev')"
    using linked_bound [OF layout_chain [OF lay]] by fastforce
  show ?thesis
    using None eq oc fr other
    by (intro exI [of _ ?l] exI [of _ ?t] exI [of _ "[]"] exI [of _ ?h2]) simp
next
  case (Some l)
  let ?h = "heap b"
  have ch: "linked ?h l (lay ev)" using lay Some by (rule layout_chain)
  have upd: "(calls_of b)(ev \<mapsto> l) = calls_of b" using Some by (simp add: fun_upd_idem)
  have lcell: "l \<in> cells ?h l (lay ev)" by (simp add: cells_def)
  have ascell: "set (lay ev) \<subseteq> cells ?h l (lay ev)" by (auto simp add: cells_def)
  show ?thesis
  proof (cases "tail (?h ! l)")
    case None
    let ?t = "length ?h"
    let ?h2 = "(?h @ [empty_object])[l := (?h ! l)\<lparr>next' := Some ?t, tail := Some ?t\<rparr>]"
    from ch None have e: "lay ev = []" and l: "l < length ?h"
      by (auto simp add: linked_def)
    have eq: "bind_own b ev cb ctx =
        \<lparr>callbacks = Some ((calls_of b)(ev \<mapsto> l)), heap = fill_tail ?h2 l ?t cb ctx\<rparr>"
      using Some None
      by (simp add: bind_own_def calls_of_def list_for_def tail_for_def Let_def fun_upd_idem
          split: option.splits)
    have oc: "open_chain ?h2 l [] ?t"
      using l by (simp add: open_chain_def nth_append nth_list_update empty_object_def)
    have fr: "\<forall>x < length ?h. x \<noteq> l \<longrightarrow> ?h2 ! x = ?h ! x"
      by (simp add: nth_append)
    have other: "\<forall>ev' l'. ev' \<noteq> ev \<longrightarrow> calls_of b ev' = Some l' \<longrightarrow>
       l \<notin> cells ?h l' (lay ev') \<and> ?t \<notin> cells ?h l' (lay ev')"
    proof (intro allI impI)
      fix ev' l'
      assume d: "ev' \<noteq> ev" and c: "calls_of b ev' = Some l'"
      from layout_disjoint [OF lay d c Some] lcell have "l \<notin> cells ?h l' (lay ev')" by auto
      moreover from linked_bound [OF layout_chain [OF lay c]] have "?t \<notin> cells ?h l' (lay ev')"
        by fastforce
      ultimately show "l \<notin> cells ?h l' (lay ev') \<and> ?t \<notin> cells ?h l' (lay ev')" by simp
    qed
    show ?thesis
      using Some eq oc fr other e
      by (intro exI [of _ l] exI [of _ ?t] exI [of _ "[]"] exI [of _ ?h2]) simp
  next
    case (Some t)
    have eq: "bind_own b ev cb ctx =
        \<lparr>callbacks = Some ((calls_of b)(ev \<mapsto> l)), heap = fill_tail ?h l t cb ctx\<rparr>"
      using \<open>calls_of b ev = Some l\<close> Some
      by (simp add: bind_own_def calls_of_def list_for_def tail_for_def Let_def fun_upd_idem
          split: option.splits)
    have oc: "open_chain ?h l (lay ev) t"
      using ch Some by (auto simp add: linked_def open_chain_def split: option.splits)
    have tcell: "t \<in> cells ?h l (lay ev)" using Some by (simp add: cells_def)
    have other: "\<forall>ev' l'. ev' \<noteq> ev \<longrightarrow> calls_of b ev' = Some l' \<longrightarrow>
       l \<notin> cells ?h l' (lay ev') \<and> t \<notin> cells ?h l' (lay ev') \<and>
       set (lay ev) \<inter> cells ?h l' (lay ev') = {}"
    proof (intro allI impI)
      fix ev' l'
      assume d: "ev' \<noteq> ev" and c: "calls_of b ev' = Some l'"
      from layout_disjoint [OF lay d c \<open>calls_of b ev = Some l\<close>] lcell tcell ascell
      show "l \<notin> cells ?h l' (lay ev') \<and> t \<notin> cells ?h l' (lay ev') \<and>
            set (lay ev) \<inter> cells ?h l' (lay ev') = {}" by auto
    qed
    show ?thesis
      using \<open>calls_of b ev = Some l\<close> eq oc other
      by (intro exI [of _ l] exI [of _ t] exI [of _ "lay ev"] exI [of _ ?h]) simp
  qed
qed

lemma registered_calls_of:
  "registered b ev ns =
     (case calls_of b ev of
        None \<Rightarrow> ns = []
      | Some l \<Rightarrow> (\<exists>as. linked (heap b) l as \<and> ns = map (node_at (heap b)) as))"
  by (simp add: registered_def calls_of_def split: option.splits)

lemma registered_layout:
  "layout_ok b lay \<Longrightarrow>
   registered b ev ns =
     (ns = (case calls_of b ev of None \<Rightarrow> [] | Some l \<Rightarrow> map (node_at (heap b)) (lay ev)))"
  by (auto simp add: registered_calls_of split: option.splits
      dest: layout_chain linked_unique)

lemma registered_exists: "well_formed b \<Longrightarrow> \<exists>ns. registered b ev ns"
  by (auto simp add: well_formed_def registered_layout)

lemma bind_layout:
  assumes lay: "layout_ok b lay"
  shows "\<exists>l t as.
    as = (if calls_of b ev = None then [] else lay ev) \<and>
    calls_of (bind_own b ev cb ctx) = (calls_of b)(ev \<mapsto> l) \<and>
    layout_ok (bind_own b ev cb ctx) (lay(ev := as @ [t])) \<and>
    map (node_at (heap (bind_own b ev cb ctx))) (as @ [t]) =
      map (node_at (heap b)) as @ [\<lparr>node_callback = cb, node_context = ctx\<rparr>] \<and>
    (\<forall>ev' l'. ev' \<noteq> ev \<longrightarrow> calls_of b ev' = Some l' \<longrightarrow>
       map (node_at (heap (bind_own b ev cb ctx))) (lay ev') = map (node_at (heap b)) (lay ev'))"
proof -
  let ?h = "heap b"
  let ?b = "bind_own b ev cb ctx"
  from bind_prepare [OF lay, of ev cb ctx] obtain l t as h2 where
    eq: "?b = \<lparr>callbacks = Some ((calls_of b)(ev \<mapsto> l)), heap = fill_tail h2 l t cb ctx\<rparr>"
    and as: "as = (if calls_of b ev = None then [] else lay ev)"
    and oc: "open_chain h2 l as t"
    and len: "length ?h \<le> length h2"
    and fr: "\<And>x. x < length ?h \<Longrightarrow> x \<noteq> l \<Longrightarrow> h2 ! x = ?h ! x"
    and nodes: "map (node_at h2) as = map (node_at ?h) as"
    and other: "\<And>ev' l'. ev' \<noteq> ev \<Longrightarrow> calls_of b ev' = Some l' \<Longrightarrow>
       l \<notin> cells ?h l' (lay ev') \<and> t \<notin> cells ?h l' (lay ev') \<and>
       set as \<inter> cells ?h l' (lay ev') = {}"
    by blast
  let ?h3 = "fill_tail h2 l t cb ctx"
  have hb: "heap ?b = ?h3" and cb: "calls_of ?b = (calls_of b)(ev \<mapsto> l)"
    by (simp_all add: eq calls_of_def)
  from oc have b: "l < length h2" "t < length h2" "l \<noteq> t"
    by (auto simp add: open_chain_def)
  note n = fill_tail_nth [OF b]
  note f = fill_tail_chain [OF oc, of cb ctx]
  have keep: "linked ?h3 l' (lay ev') \<and> cells ?h3 l' (lay ev') = cells ?h l' (lay ev') \<and>
              map (node_at ?h3) (lay ev') = map (node_at ?h) (lay ev')"
    if d: "ev' \<noteq> ev" and c: "calls_of b ev' = Some l'" for ev' l'
  proof (rule linked_frame)
    show "linked ?h l' (lay ev')" using lay c by (rule layout_chain)
    show "length ?h \<le> length ?h3" using len by (simp add: fill_tail_length)
    fix x assume x: "x \<in> cells ?h l' (lay ev')"
    then have "x < length ?h" using linked_bound [OF layout_chain [OF lay c]] by simp
    moreover from x other [OF d c] have "x \<noteq> l" "x \<noteq> t" by auto
    ultimately show "?h3 ! x = ?h ! x" using len by (simp add: n(4) fr)
  qed
  have fresh: "x < length ?h" if "x \<in> cells ?h l' (lay ev')" "calls_of b ev' = Some l'" for x ev' l'
    using that linked_bound [OF layout_chain [OF lay that(2)]] by simp
  have apart: "cells ?h3 l (as @ [t]) \<inter> cells ?h l' (lay ev') = {}"
    if d: "ev' \<noteq> ev" and c: "calls_of b ev' = Some l'" for ev' l'
  proof -
    have "length h2 \<notin> cells ?h l' (lay ev')"
      using fresh [OF _ c, of "length h2"] len by auto
    with other [OF d c] show ?thesis by (auto simp add: f(3))
  qed
  have "layout_ok ?b (lay(ev := as @ [t]))"
    unfolding layout_ok_def hb cb
  proof (intro conjI allI impI)
    fix ev' l'
    assume "((calls_of b)(ev \<mapsto> l)) ev' = Some l'"
    then show "linked ?h3 l' ((lay(ev := as @ [t])) ev')"
      using f(1) keep by (auto split: if_splits)
  next
    fix e1 e2 l1 l2
    assume "e1 \<noteq> e2" "((calls_of b)(ev \<mapsto> l)) e1 = Some l1" "((calls_of b)(ev \<mapsto> l)) e2 = Some l2"
    then consider (left) "e1 = ev" "l1 = l" "e2 \<noteq> ev" "calls_of b e2 = Some l2"
      | (right) "e2 = ev" "l2 = l" "e1 \<noteq> ev" "calls_of b e1 = Some l1"
      | (none) "e1 \<noteq> ev" "e2 \<noteq> ev" "e1 \<noteq> e2" "calls_of b e1 = Some l1" "calls_of b e2 = Some l2"
      by (auto split: if_splits)
    then show "cells ?h3 l1 ((lay(ev := as @ [t])) e1) \<inter> cells ?h3 l2 ((lay(ev := as @ [t])) e2) = {}"
    proof cases
      case left
      with apart [of e2 l2] keep [of e2 l2] show ?thesis by simp
    next
      case right
      with apart [of e1 l1] keep [of e1 l1] show ?thesis by (simp add: Int_commute)
    next
      case none
      with keep [of e1 l1] keep [of e2 l2] layout_disjoint [OF lay, of e1 e2 l1 l2]
      show ?thesis by simp
    qed
  qed
  moreover have "map (node_at ?h3) (as @ [t]) =
      map (node_at ?h) as @ [\<lparr>node_callback = cb, node_context = ctx\<rparr>]"
    using f(2) nodes by simp
  ultimately show ?thesis
    using as cb hb keep by (intro exI [of _ l] exI [of _ t] exI [of _ as]) simp
qed

lemma well_formed_fresh: "well_formed fresh"
  by (simp add: well_formed_def layout_ok_def calls_of_def fresh_def)

lemma well_formed_bind: "well_formed b \<Longrightarrow> well_formed (bind_own b ev cb ctx)"
  unfolding well_formed_def using bind_layout by blast

lemma registered_bind:
  assumes "well_formed b" and "registered b ev ns"
  shows "registered (bind_own b ev cb ctx) ev (ns @ [\<lparr>node_callback = cb, node_context = ctx\<rparr>]) \<and>
         (\<forall>ev' ms. ev' \<noteq> ev \<longrightarrow> registered (bind_own b ev cb ctx) ev' ms = registered b ev' ms)"
proof -
  from assms(1) obtain lay where lay: "layout_ok b lay" by (auto simp add: well_formed_def)
  from bind_layout [OF lay, of ev cb ctx] obtain l t as where
    as: "as = (if calls_of b ev = None then [] else lay ev)"
    and cb: "calls_of (bind_own b ev cb ctx) = (calls_of b)(ev \<mapsto> l)"
    and lay': "layout_ok (bind_own b ev cb ctx) (lay(ev := as @ [t]))"
    and new: "map (node_at (heap (bind_own b ev cb ctx))) (as @ [t]) =
      map (node_at (heap b)) as @ [\<lparr>node_callback = cb, node_context = ctx\<rparr>]"
    and old: "\<And>ev' l'. ev' \<noteq> ev \<Longrightarrow> calls_of b ev' = Some l' \<Longrightarrow>
       map (node_at (heap (bind_own b ev cb ctx))) (lay ev') = map (node_at (heap b)) (lay ev')"
    by blast
  from assms(2) have ns: "ns = map (node_at (heap b)) as"
    by (auto simp add: registered_layout [OF lay] as split: option.splits)
  show ?thesis
    using new old ns
    by (auto simp add: registered_layout [OF lay] registered_layout [OF lay'] cb
        split: option.splits)
qed

lemma registered_bind_same:
  assumes "well_formed b" and "registered b ev ns"
  shows "registered (bind_own b ev cb ctx) ev (ns @ [\<lparr>node_callback = cb, node_context = ctx\<rparr>])"
  using registered_bind [OF assms] by simp

lemma registered_bind_other:
  assumes "well_formed b" and "ev' \<noteq> ev"
  shows "registered (bind_own b ev cb ctx) ev' ms = registered b ev' ms"
proof -
  from registered_exists [OF assms(1)] obtain ns where "registered b ev ns" by blast
  from registered_bind [OF assms(1) this] assms(2) show ?thesis by simp
qed

subsection \<open>unbind keeps the store in good order\<close>

text \<open>
  The loop of \<open>unbind\<close> along a chain: it returns the store as it is when no node has
  the callback, and otherwise unlinks the first node that has it.
\<close>

lemma unbind_loop_no_match:
  "path h a as t \<Longrightarrow> next' (h ! t) = None \<Longrightarrow> callback (h ! t) = None \<Longrightarrow>
   next' (h ! p) = Some a \<Longrightarrow> (\<And>y. y \<in> set as \<Longrightarrow> callback (h ! y) \<noteq> Some f) \<Longrightarrow>
   unbind_loop h p f = Some h"
proof (induction as arbitrary: a p)
  case Nil
  then show ?case
    by (simp add: unbind_loop.simps [of h p] unbind_loop.simps [of h t])
next
  case (Cons x xs)
  from Cons.prems(1) obtain a' where a: "a = x" "next' (h ! x) = Some a'" "path h a' xs t"
    by (auto split: option.splits)
  have "unbind_loop h x f = Some h"
    using Cons.IH [OF a(3) Cons.prems(2,3) a(2)] Cons.prems(5) by simp
  then show ?case
    using Cons.prems(4,5) a(1) by (simp add: unbind_loop.simps [of h p])
qed

lemma unbind_loop_match:
  "path h a (pre @ x # post) t \<Longrightarrow> next' (h ! p) = Some a \<Longrightarrow>
   (\<And>y. y \<in> set pre \<Longrightarrow> callback (h ! y) \<noteq> Some f) \<Longrightarrow> callback (h ! x) = Some f \<Longrightarrow>
   unbind_loop h p f =
     Some (let q = last (p # pre);
               h1 = h[q := (h ! q)\<lparr>next' := next' (h ! x)\<rparr>]
           in h1[x := (h1 ! x)\<lparr>context' := Null, callback := None\<rparr>])"
proof (induction pre arbitrary: a p)
  case Nil
  then show ?case
    by (simp add: unbind_loop.simps [of h p] Let_def)
next
  case (Cons y ys)
  from Cons.prems(1) obtain a' where a: "a = y" "next' (h ! y) = Some a'"
    "path h a' (ys @ x # post) t"
    by (auto split: option.splits)
  have "unbind_loop h y f =
     Some (let q = last (y # ys);
               h1 = h[q := (h ! q)\<lparr>next' := next' (h ! x)\<rparr>]
           in h1[x := (h1 ! x)\<lparr>context' := Null, callback := None\<rparr>])"
    using Cons.IH [OF a(3) a(2) _ Cons.prems(4)] Cons.prems(3) by simp
  then show ?case
    using Cons.prems(2,3) a(1) by (simp add: unbind_loop.simps [of h p])
qed

lemma unlink_path:
  assumes "path h a (pre @ x # post) t" and "next' (h ! p) = Some a"
    and "distinct (p # pre @ x # post)" and "list_all (\<lambda>y. y < length h) (p # pre @ x # post)"
    and "h' = (h[last (p # pre) := (h ! last (p # pre))\<lparr>next' := next' (h ! x)\<rparr>])[x := c]"
  shows "\<exists>a'. next' (h' ! p) = Some a' \<and> path h' a' (pre @ post) t"
  using assms
proof (induction pre arbitrary: a p)
  case Nil
  from Nil.prems(1) obtain nx where nx: "a = x" "next' (h ! x) = Some nx" "path h nx post t"
    by (auto split: option.splits)
  have "path h' nx post t = path h nx post t"
  proof (rule path_frame)
    fix y assume "y \<in> set post"
    with Nil.prems(3) have "y \<noteq> p" "y \<noteq> x" by auto
    with Nil.prems(5) show "h' ! y = h ! y" by simp
  qed
  with nx Nil.prems(3,4,5) show ?case by simp
next
  case (Cons y ys)
  from Cons.prems(1) obtain a2 where a: "a = y" "next' (h ! y) = Some a2"
    "path h a2 (ys @ x # post) t"
    by (auto split: option.splits)
  have "\<exists>a'. next' (h' ! y) = Some a' \<and> path h' a' (ys @ post) t"
    using Cons.prems(3,4,5) by (intro Cons.IH [OF a(3) a(2)]) auto
  moreover have "last (p # y # ys) \<noteq> p"
    using Cons.prems(3) last_in_set [of "y # ys"] by auto
  then have "h' ! p = h ! p"
    using Cons.prems(3,5) by simp
  ultimately show ?case
    using Cons.prems(2) a(1) by auto
qed

lemma unbind_loop_chain:
  fixes h :: "cell list" and f :: nat
  assumes ch: "linked h l as"
  defines "P \<equiv> \<lambda>y. callback (h ! y) \<noteq> Some f"
  defines "as' \<equiv> takeWhile P as @ drop 1 (dropWhile P as)"
  shows "\<exists>h'. unbind_loop h l f = Some h' \<and> length h' = length h \<and>
           linked h' l as' \<and> cells h' l as' \<subseteq> cells h l as \<and>
           map (node_at h') as' = map (node_at h) as' \<and>
           (\<forall>y. y \<notin> cells h l as \<longrightarrow> h' ! y = h ! y) \<and>
           (list_all P as \<longrightarrow> h' = h)"
proof (cases "tail (h ! l)")
  case None
  with ch have "as = []" "next' (h ! l) = None" by (auto simp add: linked_def)
  then have "unbind_loop h l f = Some h" "as' = []"
    by (simp_all add: unbind_loop.simps [of h l] as'_def)
  with ch \<open>as = []\<close> show ?thesis by auto
next
  case (Some t)
  with ch obtain a where c: "l < length h" "t < length h" "next' (h ! l) = Some a"
    "path h a as t" "next' (h ! t) = None" "callback (h ! t) = None"
    "distinct (l # as @ [t])" "list_all (\<lambda>x. x < length h) as"
    by (auto simp add: linked_def split: option.splits)
  show ?thesis
  proof (cases "dropWhile P as")
    case Nil
    then have all: "\<And>y. y \<in> set as \<Longrightarrow> P y" by (simp add: dropWhile_eq_Nil_conv)
    then have "unbind_loop h l f = Some h"
      using c by (intro unbind_loop_no_match [of h a as t]) (auto simp add: P_def)
    moreover have "takeWhile P as = as"
      using all by (simp add: takeWhile_eq_all_conv)
    then have "as' = as"
      unfolding as'_def Nil by simp
    ultimately show ?thesis using ch by auto
  next
    case (Cons x post)
    define pre where "pre = takeWhile P as"
    have as: "as = pre @ x # post"
      using takeWhile_dropWhile_id [of P as] Cons by (simp add: pre_def)
    have pre: "\<And>y. y \<in> set pre \<Longrightarrow> callback (h ! y) \<noteq> Some f"
      using set_takeWhileD [of _ P as] by (auto simp add: pre_def P_def)
    have "\<not> P (hd (dropWhile P as))"
      by (rule hd_dropWhile) (simp only: Cons list.distinct not_False_eq_True)
    then have x: "callback (h ! x) = Some f"
      unfolding Cons by (simp add: P_def)
    have as': "as' = pre @ post" by (simp add: as'_def pre_def Cons)
    have notall: "\<not> list_all P as" using x by (simp add: as P_def)
    define q where "q = last (l # pre)"
    define h1 where "h1 = h[q := (h ! q)\<lparr>next' := next' (h ! x)\<rparr>]"
    define h' where "h' = h1[x := (h1 ! x)\<lparr>context' := Null, callback := None\<rparr>]"
    have loop: "unbind_loop h l f = Some h'"
      using unbind_loop_match [of h a pre x post t l f] c(3,4) pre x
      by (simp add: as h'_def h1_def q_def Let_def)
    have q: "q = l \<or> q \<in> set pre"
      using last_in_set [of "l # pre"] by (auto simp add: q_def)
    have qx: "q \<noteq> x" "q \<noteq> t" "x \<noteq> t" "x \<noteq> l" "t \<noteq> l"
      using q c(7) by (auto simp add: as)
    have qlen: "q < length h" "x < length h"
      using q c(1,8) by (auto simp add: as list_all_iff)
    have len: "length h' = length h" by (simp add: h'_def h1_def)
    have other: "\<And>y. y \<noteq> x \<Longrightarrow> y \<noteq> q \<Longrightarrow> h' ! y = h ! y"
      by (simp add: h'_def h1_def)
    have hq: "h' ! q = (h ! q)\<lparr>next' := next' (h ! x)\<rparr>"
      using qx qlen by (simp add: h'_def h1_def)
    have keep: "\<And>y. y \<noteq> x \<Longrightarrow> tail (h' ! y) = tail (h ! y) \<and> node_at h' y = node_at h y"
      using hq other by (case_tac "y = q") (simp_all add: node_at_def)
    obtain a' where a': "next' (h' ! l) = Some a'" "path h' a' (pre @ post) t"
      using unlink_path [of h a pre x post t l h' "(h1 ! x)\<lparr>context' := Null, callback := None\<rparr>"]
        c(1,3,4,7,8)
      by (auto simp add: as h'_def h1_def q_def)
    have "linked h' l as'"
      using Some c a' qx keep [of l] other [of t]
      by (auto simp add: linked_def as' as len list_all_iff)
    moreover have "cells h' l as' \<subseteq> cells h l as"
      using Some keep [of l] qx by (auto simp add: cells_def as' as)
    moreover have "map (node_at h') as' = map (node_at h) as'"
    proof -
      have "node_at h' y = node_at h y" if "y \<in> set as'" for y
      proof -
        from that c(7) have "y \<noteq> x" by (auto simp add: as' as)
        then show ?thesis using keep by simp
      qed
      then show ?thesis by simp
    qed
    moreover have "\<forall>y. y \<notin> cells h l as \<longrightarrow> h' ! y = h ! y"
      using q by (auto simp add: cells_def as intro: other)
    ultimately show ?thesis using loop len notall by auto
  qed
qed

lemma unbind_layout:
  fixes f :: nat
  assumes lay: "layout_ok b lay" and ev: "ev \<noteq> []"
  defines "Q \<equiv> \<lambda>n. node_callback n \<noteq> Some f"
  defines "ns \<equiv> (case calls_of b ev of None \<Rightarrow> [] | Some l \<Rightarrow> map (node_at (heap b)) (lay ev))"
  shows "\<exists>b' as'. unbind_own b (Some ev) (Some f) = Some b' \<and> calls_of b' = calls_of b \<and>
    layout_ok b' (lay(ev := as')) \<and>
    (case calls_of b ev of None \<Rightarrow> True
     | Some l \<Rightarrow> map (node_at (heap b')) as' = takeWhile Q ns @ drop 1 (dropWhile Q ns)) \<and>
    (\<forall>ev' l'. ev' \<noteq> ev \<longrightarrow> calls_of b ev' = Some l' \<longrightarrow>
       map (node_at (heap b')) (lay ev') = map (node_at (heap b)) (lay ev')) \<and>
    (list_all Q ns \<longrightarrow> b' = b)"
proof (cases "calls_of b ev")
  case None
  then have "unbind_own b (Some ev) (Some f) = Some b"
    using ev by (auto simp add: unbind_own_def calls_of_def split: option.splits)
  moreover have "layout_ok b (lay(ev := lay ev))" using lay by simp
  ultimately show ?thesis using None by (intro exI [of _ b] exI [of _ "lay ev"]) simp
next
  case (Some l)
  let ?h = "heap b"
  define P where "P = (\<lambda>y. callback (?h ! y) \<noteq> Some f)"
  define as' where "as' = takeWhile P (lay ev) @ drop 1 (dropWhile P (lay ev))"
  have ch: "linked ?h l (lay ev)" using lay Some by (rule layout_chain)
  from unbind_loop_chain [OF ch, of f] obtain h' where
    loop: "unbind_loop ?h l f = Some h'" and len: "length h' = length ?h"
    and ch': "linked h' l as'" and sub: "cells h' l as' \<subseteq> cells ?h l (lay ev)"
    and nodes: "map (node_at h') as' = map (node_at ?h) as'"
    and fr: "\<And>y. y \<notin> cells ?h l (lay ev) \<Longrightarrow> h' ! y = ?h ! y"
    and same: "list_all P (lay ev) \<Longrightarrow> h' = ?h"
    unfolding P_def as'_def by blast
  let ?b = "b\<lparr>heap := h'\<rparr>"
  from Some obtain calls where calls: "callbacks b = Some calls" "calls ev = Some l"
    by (auto simp add: calls_of_def split: option.splits)
  have ub: "unbind_own b (Some ev) (Some f) = Some ?b"
    using ev calls loop by (simp add: unbind_own_def)
  have cb: "calls_of ?b = calls_of b" by (simp add: calls_of_def)
  have PQ: "P = Q \<circ> node_at ?h" by (auto simp add: P_def Q_def node_at_def)
  have ns: "ns = map (node_at ?h) (lay ev)" using Some by (simp add: ns_def)
  have "map (node_at ?h) as' = takeWhile Q ns @ drop 1 (dropWhile Q ns)"
    by (simp add: as'_def ns PQ takeWhile_map dropWhile_map drop_map)
  with nodes have new: "map (node_at h') as' = takeWhile Q ns @ drop 1 (dropWhile Q ns)"
    by simp
  have keep: "linked h' l' (lay ev') \<and> cells h' l' (lay ev') = cells ?h l' (lay ev') \<and>
              map (node_at h') (lay ev') = map (node_at ?h) (lay ev')"
    if d: "ev' \<noteq> ev" and c: "calls_of b ev' = Some l'" for ev' l'
  proof (rule linked_frame)
    show "linked ?h l' (lay ev')" using lay c by (rule layout_chain)
    show "length ?h \<le> length h'" using len by simp
    fix x assume "x \<in> cells ?h l' (lay ev')"
    with layout_disjoint [OF lay d c Some] have "x \<notin> cells ?h l (lay ev)" by auto
    then show "h' ! x = ?h ! x" by (rule fr)
  qed
  have "layout_ok ?b (lay(ev := as'))"
    unfolding layout_ok_def cb
  proof (intro conjI allI impI)
    fix ev' l'
    assume "calls_of b ev' = Some l'"
    then show "linked (heap ?b) l' ((lay(ev := as')) ev')"
      using ch' keep Some by (cases "ev' = ev") auto
  next
    fix e1 e2 l1 l2
    assume a: "e1 \<noteq> e2" "calls_of b e1 = Some l1" "calls_of b e2 = Some l2"
    show "cells (heap ?b) l1 ((lay(ev := as')) e1) \<inter> cells (heap ?b) l2 ((lay(ev := as')) e2) = {}"
    proof (cases "e1 = ev")
      case True
      with a Some have "l1 = l" "e2 \<noteq> ev" by auto
      with True a keep [of e2 l2] layout_disjoint [OF lay, of ev e2 l l2] Some sub
      show ?thesis by auto
    next
      case False
      show ?thesis
      proof (cases "e2 = ev")
        case True
        with a Some have "l2 = l" by auto
        with True False a keep [of e1 l1] layout_disjoint [OF lay, of e1 ev l1 l] Some sub
        show ?thesis by auto
      next
        case e2: False
        with False a keep [of e1 l1] keep [of e2 l2] layout_disjoint [OF lay, of e1 e2 l1 l2]
        show ?thesis by simp
      qed
    qed
  qed
  moreover have "list_all Q ns \<longrightarrow> ?b = b"
    using same by (simp add: ns PQ list_all_iff)
  ultimately show ?thesis
    using ub cb new keep Some by (intro exI [of _ ?b] exI [of _ as']) simp
qed

lemma unbind_everything:
  "ev = None \<or> ev = Some [] \<Longrightarrow> unbind_own b ev cb = Some (b\<lparr>callbacks := None\<rparr>)"
  by (auto simp add: unbind_own_def)

lemma well_formed_unbind_event:
  assumes wf: "well_formed b" and ev: "ev \<noteq> []"
  shows "\<exists>b'. unbind_own b (Some ev) None = Some b' \<and> well_formed b' \<and> registered b' ev [] \<and>
           (\<forall>ev' ms. ev' \<noteq> ev \<longrightarrow> registered b' ev' ms = registered b ev' ms)"
proof (cases "callbacks b")
  case None
  then have "unbind_own b (Some ev) None = Some b" using ev by (simp add: unbind_own_def)
  with wf None show ?thesis by (simp add: registered_def)
next
  case (Some calls)
  let ?h = "heap b"
  let ?b = "\<lparr>callbacks = Some (calls(ev \<mapsto> length ?h)), heap = ?h @ [empty_object]\<rparr>"
  from wf obtain lay where lay: "layout_ok b lay" by (auto simp add: well_formed_def)
  have ub: "unbind_own b (Some ev) None = Some ?b" using ev Some by (simp add: unbind_own_def)
  have cb: "calls_of ?b = (calls_of b)(ev \<mapsto> length ?h)" using Some by (simp add: calls_of_def)
  have new: "linked (heap ?b) (length ?h) []"
    by (simp add: linked_def empty_object_def)
  have newcells: "cells (heap ?b) (length ?h) [] = {length ?h}"
    by (simp add: cells_def empty_object_def)
  have keep: "linked (heap ?b) l' (lay ev') \<and> cells (heap ?b) l' (lay ev') = cells ?h l' (lay ev') \<and>
              map (node_at (heap ?b)) (lay ev') = map (node_at ?h) (lay ev')"
    if c: "calls_of b ev' = Some l'" for ev' l'
  proof (rule linked_frame)
    show "linked ?h l' (lay ev')" using lay c by (rule layout_chain)
    show "length ?h \<le> length (heap ?b)" by simp
    fix x assume "x \<in> cells ?h l' (lay ev')"
    then have "x < length ?h" using linked_bound [OF layout_chain [OF lay c]] by simp
    then show "heap ?b ! x = ?h ! x" by (simp add: nth_append)
  qed
  have old: "length ?h \<notin> cells ?h l' (lay ev')" if c: "calls_of b ev' = Some l'" for ev' l'
    using linked_bound [OF layout_chain [OF lay c], of "length ?h"] by auto
  have lay': "layout_ok ?b (lay(ev := []))"
    unfolding layout_ok_def cb
  proof (intro conjI allI impI)
    fix ev' l'
    assume "((calls_of b)(ev \<mapsto> length ?h)) ev' = Some l'"
    then show "linked (heap ?b) l' ((lay(ev := [])) ev')"
      using new keep by (auto split: if_splits)
  next
    fix e1 e2 l1 l2
    assume a: "e1 \<noteq> e2" "((calls_of b)(ev \<mapsto> length ?h)) e1 = Some l1"
      "((calls_of b)(ev \<mapsto> length ?h)) e2 = Some l2"
    show "cells (heap ?b) l1 ((lay(ev := [])) e1) \<inter> cells (heap ?b) l2 ((lay(ev := [])) e2) = {}"
    proof (cases "e1 = ev")
      case True
      with a have "l1 = length ?h" "e2 \<noteq> ev" "calls_of b e2 = Some l2" by auto
      with True keep [of e2 l2] old [of e2 l2] newcells show ?thesis by simp
    next
      case False
      show ?thesis
      proof (cases "e2 = ev")
        case True
        with a False have "l2 = length ?h" "calls_of b e1 = Some l1" by auto
        with True False keep [of e1 l1] old [of e1 l1] newcells show ?thesis by simp
      next
        case e2: False
        with False a keep [of e1 l1] keep [of e2 l2] layout_disjoint [OF lay, of e1 e2 l1 l2]
        show ?thesis by simp
      qed
    qed
  qed
  have "registered ?b ev' ms = registered b ev' ms" if "ev' \<noteq> ev" for ev' ms
    using that keep [of ev']
    by (auto simp add: registered_layout [OF lay] registered_layout [OF lay'] cb
        split: option.splits)
  moreover have "registered ?b ev []"
    by (simp add: registered_layout [OF lay'] cb)
  moreover have "well_formed ?b" using lay' by (auto simp add: well_formed_def)
  ultimately show ?thesis using ub by simp
qed

lemma unbind_registered:
  fixes f :: nat
  assumes wf: "well_formed b" and ev: "ev \<noteq> []" and ns: "registered b ev ns"
  shows "\<exists>b'. unbind_own b (Some ev) (Some f) = Some b' \<and> well_formed b' \<and>
           registered b' ev
             (takeWhile (\<lambda>n. node_callback n \<noteq> Some f) ns
                @ drop 1 (dropWhile (\<lambda>n. node_callback n \<noteq> Some f) ns)) \<and>
           (\<forall>ev' ms. ev' \<noteq> ev \<longrightarrow> registered b' ev' ms = registered b ev' ms) \<and>
           (list_all (\<lambda>n. node_callback n \<noteq> Some f) ns \<longrightarrow> b' = b)"
proof -
  from wf obtain lay where lay: "layout_ok b lay" by (auto simp add: well_formed_def)
  from ns have ns': "ns = (case calls_of b ev of None \<Rightarrow> [] | Some l \<Rightarrow> map (node_at (heap b)) (lay ev))"
    by (simp add: registered_layout [OF lay])
  from unbind_layout [OF lay ev, of f] obtain b' as' where
    ub: "unbind_own b (Some ev) (Some f) = Some b'" and cb: "calls_of b' = calls_of b"
    and lay': "layout_ok b' (lay(ev := as'))"
    and new: "case calls_of b ev of None \<Rightarrow> True
       | Some l \<Rightarrow> map (node_at (heap b')) as' =
           takeWhile (\<lambda>n. node_callback n \<noteq> Some f) ns
             @ drop 1 (dropWhile (\<lambda>n. node_callback n \<noteq> Some f) ns)"
    and old: "\<And>ev' l'. ev' \<noteq> ev \<Longrightarrow> calls_of b ev' = Some l' \<Longrightarrow>
       map (node_at (heap b')) (lay ev') = map (node_at (heap b)) (lay ev')"
    and same: "list_all (\<lambda>n. node_callback n \<noteq> Some f) ns \<longrightarrow> b' = b"
    unfolding ns' by blast
  have "registered b' ev
     (takeWhile (\<lambda>n. node_callback n \<noteq> Some f) ns
        @ drop 1 (dropWhile (\<lambda>n. node_callback n \<noteq> Some f) ns))"
    using new ns' by (auto simp add: registered_layout [OF lay'] cb split: option.splits)
  moreover have "registered b' ev' ms = registered b ev' ms" if "ev' \<noteq> ev" for ev' ms
    using that old [of ev']
    by (auto simp add: registered_layout [OF lay] registered_layout [OF lay'] cb
        split: option.splits)
  moreover have "well_formed b'" using lay' by (auto simp add: well_formed_def)
  ultimately show ?thesis using ub same by simp
qed

lemma well_formed_unbind:
  assumes "well_formed b" and "unbind_own b ev cb = Some b'"
  shows "well_formed b'"
proof (cases "ev = None \<or> ev = Some []")
  case True
  with assms(2) have "b' = b\<lparr>callbacks := None\<rparr>" by (simp add: unbind_everything)
  then show ?thesis by (simp add: well_formed_def layout_ok_def calls_of_def)
next
  case False
  then obtain e where e: "ev = Some e" "e \<noteq> []" by auto
  show ?thesis
  proof (cases cb)
    case None
    with well_formed_unbind_event [OF assms(1) e(2)] assms(2) e show ?thesis by auto
  next
    case (Some f)
    from registered_exists [OF assms(1)] obtain ns where "registered b e ns" by blast
    from unbind_registered [OF assms(1) e(2) this, of f] assms(2) e Some show ?thesis by auto
  qed
qed

subsection \<open>The operations on names that are not inherited\<close>

lemma not_inherited [simp]: "\<not> inherited ''x''" "\<not> inherited ''y''" "\<not> inherited ''all''" "\<not> inherited []"
  by (simp_all add: inherited_def object_prototype_names_def)

lemma bind_plain: "\<not> inherited ev \<Longrightarrow> bind b ev cb ctx = Inr (bind_own b ev cb ctx)"
  by (simp add: bind_def)

lemma bind_Inr: "bind b ev cb ctx = Inr b' \<Longrightarrow> \<not> inherited ev \<and> b' = bind_own b ev cb ctx"
  by (auto simp add: bind_def split: if_splits)


lemma unbind_Inr: "unbind b ev cb = Some (Inr b') \<Longrightarrow> unbind_own b ev cb = Some b'"
  by (auto simp add: unbind_def split: if_splits)

lemma trigger_plain:
  "\<not> inherited ev \<Longrightarrow> trigger b ev rest = map_option Inr (trigger_own b ev rest)"
  by (simp add: trigger_def)


subsection \<open>Reachable buses\<close>

lemma reachable_well_formed: "reachable b \<Longrightarrow> well_formed b"
proof (induction rule: reachable.induct)
  case start
  show ?case by (rule well_formed_fresh)
next
  case (after_bind b ev cb ctx b')
  then show ?case by (auto dest: bind_Inr intro: well_formed_bind)
next
  case (after_unbind b ev cb b')
  then show ?case by (auto dest: unbind_Inr intro: well_formed_unbind)
qed

lemma unbind_own_returns: "well_formed b \<Longrightarrow> \<exists>b'. unbind_own b ev cb = Some b'"
proof -
  assume wf: "well_formed b"
  show ?thesis
  proof (cases "ev = None \<or> ev = Some []")
    case True
    then show ?thesis by (simp add: unbind_everything)
  next
    case False
    then obtain e where e: "ev = Some e" "e \<noteq> []" by auto
    show ?thesis
    proof (cases cb)
      case None
      with well_formed_unbind_event [OF wf e(2)] e show ?thesis by auto
    next
      case (Some f)
      from registered_exists [OF wf] obtain ns where "registered b e ns" by blast
      from unbind_registered [OF wf e(2) this, of f] e Some show ?thesis by auto
    qed
  qed
qed

lemma unbind_returns: "reachable b \<Longrightarrow> \<exists>r. unbind b ev cb = Some r"
  using unbind_own_returns [OF reachable_well_formed, of b ev cb]
  by (auto simp add: unbind_def)

lemma well_formed_bind_all: "well_formed b \<Longrightarrow> well_formed (bind_all_own b ev regs)"
  unfolding bind_all_own_def
  by (induction regs arbitrary: b) (auto simp add: well_formed_bind)





lemma invoke_append: "invoke (xs @ ys) args = invoke xs args @ invoke ys args"
  by (induction xs) (auto split: option.splits)





lemma trigger_returns: "reachable b \<Longrightarrow> \<exists>r. trigger b ev rest = Some r"
proof -
  assume "reachable b"
  then have "well_formed b" by (rule reachable_well_formed)
  then obtain ns ms where "registered b ev ns" "registered b ''all'' ms"
    using registered_exists by blast
  then show ?thesis by (simp add: trigger_def trigger_registered)
qed

section \<open>Dispatch on the bus\<close>

lemma wildcard_fresh:
  "trigger_own (bind_own (bind_own fresh ''all'' (Some C) Undefined) ''x'' (Some D) Undefined)
     ''x'' [Num (Fin 5)]
     = Some [Call D This [Num (Fin 5)], Call C This [Str ''x'', Num (Fin 5)]]"
  by code_simp

text \<open>
  C5: on a fresh bus, binding \<open>C\<close> to \<open>all\<close> and \<open>D\<close> to \<open>x\<close> and then triggering \<open>x\<close> with
  \<open>5\<close>: both bindings return a bus, and \<open>trigger\<close> returns after calling \<open>D(5)\<close>, with
  the trailing argument only, and then \<open>C("x", 5)\<close>, with the event name first, and
  nothing else.
\<close>

theorem wildcard_delivery:
  "\<exists>b1 b2.
     bind fresh ''all'' (Some C) Undefined = Inr b1 \<and>
     bind b1 ''x'' (Some D) Undefined = Inr b2 \<and>
     trigger b2 ''x'' [Num (Fin 5)]
       = Some (Inr [Call D This [Num (Fin 5)], Call C This [Str ''x'', Num (Fin 5)]])"
  using wildcard_fresh [of C D]
  by (simp add: bind_plain trigger_plain)

text \<open>
  The same on any reachable bus, with any contexts and arguments: both calls are among
  those \<open>trigger\<close> makes.
\<close>

lemma wildcard_reachable:
  assumes "reachable b"
  shows "\<exists>b1 b2 calls.
           bind b ''all'' (Some C) cc = Inr b1 \<and> bind b1 ''x'' (Some D) cd = Inr b2 \<and>
           trigger b2 ''x'' rest = Some (Inr calls) \<and>
           Call D (receiver_of cd) rest \<in> set calls \<and>
           Call C (receiver_of cc) (Str ''x'' # rest) \<in> set calls"
proof -
  from assms have wf: "well_formed b" by (rule reachable_well_formed)
  from registered_exists [OF wf] obtain ns ms where
    ns: "registered b ''x'' ns" and ms: "registered b ''all'' ms" by blast
  let ?b1 = "bind_own b ''all'' (Some C) cc"
  let ?b2 = "bind_own ?b1 ''x'' (Some D) cd"
  have wf1: "well_formed ?b1" using wf by (rule well_formed_bind)
  have "registered ?b1 ''all'' (ms @ [\<lparr>node_callback = Some C, node_context = cc\<rparr>])"
    using wf ms by (rule registered_bind_same)
  then have all: "registered ?b2 ''all'' (ms @ [\<lparr>node_callback = Some C, node_context = cc\<rparr>])"
    using wf1 by (simp add: registered_bind_other)
  have "registered ?b1 ''x'' ns"
    using wf ns by (simp add: registered_bind_other)
  with wf1 have x: "registered ?b2 ''x'' (ns @ [\<lparr>node_callback = Some D, node_context = cd\<rparr>])"
    by (rule registered_bind_same)
  from trigger_registered [OF x all, of rest] show ?thesis
    by (simp add: bind_plain trigger_plain invoke_append receiver_of_def)
qed










end
